theory Spec2Isabelle
  imports Main "HOL-Library.Word" "HOL-Library.Char_ord" "HOL-Library.List_Lexorder"
    "HOL-Library.AList" "HOL-Library.Sublist"
begin

unbundle bit_operations_syntax

section \<open>Machine types, result codes and opcodes\<close>

type_synonym u32 = "32 word"
type_synonym u64 = "64 word"

text \<open>
  Modelled from the spec: the result codes of \<open>IOSReturnCode\<close> are declared in a header that
  is not part of the sources at hand. The four named codes the device uses are the
  constructors; \<open>ReturnValue n\<close> is a result given as a literal number (GET_STATS returns
  the literal \<open>-1017\<close>).
\<close>

datatype IOSReturnCode = IPC_SUCCESS | FS_EINVAL | FS_ENOENT | FS_EEXIST | ReturnValue int

text \<open>
  Modelled from the spec: the opcode enumerators of the device header. \<open>IOCTL_UNKNOWN w\<close>
  is a request number \<open>w\<close> that equals none of the enumerators.
\<close>

datatype Opcode =
    IOCTL_GET_STATS | IOCTL_CREATE_DIR | IOCTLV_READ_DIR | IOCTL_SET_ATTR | IOCTL_GET_ATTR
  | IOCTL_DELETE_FILE | IOCTL_RENAME_FILE | IOCTL_CREATE_FILE | IOCTLV_GETUSAGE
  | IOCTL_SHUTDOWN | IOCTL_UNKNOWN u32

record IOVector =
  address :: u32
  size_v :: u32

record IOSIOCtlVRequest =
  request_v :: Opcode
  in_vectors :: "IOVector list"
  io_vectors :: "IOVector list"

record IOSIOCtlRequest =
  request :: Opcode
  buffer_in :: u32
  buffer_in_size :: u32
  buffer_out :: u32
  buffer_out_size :: u32

record IPCCommandResult =
  return_value :: IOSReturnCode
  send_reply :: bool
  reply_delay_ticks :: nat

text \<open>
  Modelled from the spec: what the device uses but does not define is a parameter of the
  model: the session root of the host tree, the mapping of a guest path to a host path,
  the unescaping of a host file name, the emulated clock rate, and the in-memory image of
  a 32-bit integer on the host (its byte order).
\<close>

record host_env =
  GetUserPath_SESSION_WIIROOT :: string
  HLE_IPC_BuildFilename :: "string \<Rightarrow> string"
  UnescapeFileName :: "string \<Rightarrow> string"
  GetTicksPerSecond :: nat
  u32_image :: "u32 \<Rightarrow> string"

section \<open>Guest memory\<close>

text \<open>
  Modelled from the spec: guest memory is a byte region addressed by an integer; the
  primitives read and write single bytes, big-endian 32-bit words, byte ranges and
  length-bounded NUL-terminated strings. A byte is a C \<open>char\<close>.
\<close>

type_synonym memory = "nat \<Rightarrow> char"

fun write_bytes :: "nat \<Rightarrow> string \<Rightarrow> memory \<Rightarrow> memory" where
  "write_bytes p [] m = m"
| "write_bytes p (c # cs) m = write_bytes (Suc p) cs (m(p := c))"

definition read_bytes :: "memory \<Rightarrow> nat \<Rightarrow> nat \<Rightarrow> string" where
  "read_bytes m p n = map m [p ..< p + n]"

definition be_bytes32 :: "u32 \<Rightarrow> string" where
  "be_bytes32 v = [char_of (unat (drop_bit 24 v)), char_of (unat (drop_bit 16 v)),
                   char_of (unat (drop_bit 8 v)), char_of (unat v)]"

definition Write_U8 :: "char \<Rightarrow> u32 \<Rightarrow> memory \<Rightarrow> memory" where
  "Write_U8 v a m = m(unat a := v)"

definition Write_U16 :: "16 word \<Rightarrow> u32 \<Rightarrow> memory \<Rightarrow> memory" where
  "Write_U16 v a m = write_bytes (unat a) [char_of (unat (drop_bit 8 v)), char_of (unat v)] m"

definition Write_U32 :: "u32 \<Rightarrow> u32 \<Rightarrow> memory \<Rightarrow> memory" where
  "Write_U32 v a m = write_bytes (unat a) (be_bytes32 v) m"

definition Read_U32 :: "memory \<Rightarrow> u32 \<Rightarrow> u32" where
  "Read_U32 m a = word_of_nat (foldl (\<lambda>acc c. acc * 256 + of_char c) 0 (read_bytes m (unat a) 4))"

definition Memset :: "u32 \<Rightarrow> char \<Rightarrow> u32 \<Rightarrow> memory \<Rightarrow> memory" where
  "Memset a v n m = write_bytes (unat a) (replicate (unat n) v) m"

definition GetString :: "memory \<Rightarrow> u32 \<Rightarrow> u32 \<Rightarrow> string" where
  "GetString m a n = takeWhile (\<lambda>c. c \<noteq> CHR 0x00) (read_bytes m (unat a) (unat n))"

text \<open>\<open>strcpy\<close> copies up to and including the first NUL of its source.\<close>

definition strcpy :: "nat \<Rightarrow> string \<Rightarrow> memory \<Rightarrow> memory" where
  "strcpy p s m = write_bytes p (takeWhile (\<lambda>c. c \<noteq> CHR 0x00) s @ [CHR 0x00]) m"

section \<open>Host file system\<close>

text \<open>
  Modelled from the spec: the host file primitives (exists, is-directory, create, delete,
  rename, scan-tree) are outside the sources at hand. The host tree is a root directory;
  a directory is the list of its named children in enumeration order, a file is its bytes.
  A path string names the node reached by its \<open>/\<close>-separated, non-empty components.
\<close>

datatype hnode = HFile string | HDir "(string \<times> hnode) list"

definition DIR_SEP :: string where
  "DIR_SEP = ''/''"

fun split_acc :: "string \<Rightarrow> string \<Rightarrow> string list" where
  "split_acc [] cur = (if cur = [] then [] else [cur])"
| "split_acc (c # cs) cur =
     (if c = CHR ''/'' then (if cur = [] then split_acc cs [] else cur # split_acc cs [])
      else split_acc cs (cur @ [c]))"

definition split_path :: "string \<Rightarrow> string list" where
  "split_path s = split_acc s []"

fun lookup :: "hnode \<Rightarrow> string list \<Rightarrow> hnode option" where
  "lookup n [] = Some n"
| "lookup (HFile b) (c # cs) = None"
| "lookup (HDir es) (c # cs) = (case map_of es c of None \<Rightarrow> None | Some n \<Rightarrow> lookup n cs)"

fun put_at :: "string list \<Rightarrow> hnode \<Rightarrow> hnode \<Rightarrow> hnode" where
  "put_at [] new n = n"
| "put_at [c] new (HDir es) = HDir (AList.update c new es)"
| "put_at (c # cs) new (HDir es) =
     (case map_of es c of None \<Rightarrow> HDir es
      | Some n \<Rightarrow> HDir (AList.update c (put_at cs new n) es))"
| "put_at (c # cs) new (HFile b) = HFile b"

fun remove_at :: "string list \<Rightarrow> hnode \<Rightarrow> hnode" where
  "remove_at [] n = n"
| "remove_at [c] (HDir es) = HDir (AList.delete c es)"
| "remove_at (c # cs) (HDir es) =
     (case map_of es c of None \<Rightarrow> HDir es
      | Some n \<Rightarrow> HDir (AList.update c (remove_at cs n) es))"
| "remove_at (c # cs) (HFile b) = HFile b"

definition is_dir :: "hnode option \<Rightarrow> bool" where
  "is_dir r = (case r of Some (HDir es) \<Rightarrow> True | _ \<Rightarrow> False)"

definition File_Exists :: "hnode \<Rightarrow> string \<Rightarrow> bool" where
  "File_Exists fs p = (lookup fs (split_path p) \<noteq> None)"

definition File_IsDirectory :: "hnode \<Rightarrow> string \<Rightarrow> bool" where
  "File_IsDirectory fs p = is_dir (lookup fs (split_path p))"

text \<open>\<open>mkdir\<close>: the parent must be a directory and the name free; the result is unused.\<close>

definition File_CreateDir :: "string \<Rightarrow> hnode \<Rightarrow> hnode" where
  "File_CreateDir p fs =
     (if lookup fs (split_path p) = None then put_at (split_path p) (HDir []) fs else fs)"

text \<open>
  A file opened with mode \<open>wb\<close>, written with the bytes \<open>data\<close> and closed: the file is
  created or truncated unless the path names a directory or its parent is no directory.
\<close>

definition IOFile_wb :: "string \<Rightarrow> string \<Rightarrow> hnode \<Rightarrow> hnode" where
  "IOFile_wb p data fs =
     (if is_dir (lookup fs (split_path p)) then fs else put_at (split_path p) (HFile data) fs)"

text \<open>A file opened with mode \<open>rb\<close>: its bytes, none when the open fails.\<close>

definition IOFile_rb :: "hnode \<Rightarrow> string \<Rightarrow> string" where
  "IOFile_rb fs p = (case lookup fs (split_path p) of Some (HFile b) \<Rightarrow> b | _ \<Rightarrow> [])"

definition File_CreateEmptyFile :: "string \<Rightarrow> hnode \<Rightarrow> bool \<times> hnode" where
  "File_CreateEmptyFile p fs =
     (let fs' = IOFile_wb p [] fs in (lookup fs' (split_path p) = Some (HFile []), fs'))"

definition File_Delete :: "string \<Rightarrow> hnode \<Rightarrow> bool \<times> hnode" where
  "File_Delete p fs =
     (if \<not> File_Exists fs p then (True, fs)
      else if File_IsDirectory fs p then (False, fs)
      else (True, remove_at (split_path p) fs))"

definition File_DeleteDir :: "string \<Rightarrow> hnode \<Rightarrow> bool \<times> hnode" where
  "File_DeleteDir p fs =
     (if split_path p \<noteq> [] \<and> lookup fs (split_path p) = Some (HDir [])
      then (True, remove_at (split_path p) fs) else (False, fs))"

definition File_DeleteDirRecursively :: "string \<Rightarrow> hnode \<Rightarrow> hnode" where
  "File_DeleteDirRecursively p fs =
     (if File_IsDirectory fs p then remove_at (split_path p) fs else fs)"

definition sub_paths :: "string \<Rightarrow> string list" where
  "sub_paths fullPath =
     map (\<lambda>i. take (Suc i) fullPath) (filter (\<lambda>i. fullPath ! i = CHR ''/'') [0 ..< length fullPath])"

definition File_CreateFullPath :: "string \<Rightarrow> hnode \<Rightarrow> hnode" where
  "File_CreateFullPath fullPath fs =
     (if File_Exists fs fullPath then fs
      else fold (\<lambda>subPath fs. if File_IsDirectory fs subPath then fs else File_CreateDir subPath fs)
             (sub_paths fullPath) fs)"

text \<open>\<open>rename\<close>: the source must exist, the parent of the target must be a directory, and
  a target that exists must be of the kind of the source, a directory target empty.\<close>

definition File_Rename :: "string \<Rightarrow> string \<Rightarrow> hnode \<Rightarrow> bool \<times> hnode" where
  "File_Rename src dst fs =
     (let s = split_path src; d = split_path dst in
      case lookup fs s of
        None \<Rightarrow> (False, fs)
      | Some n \<Rightarrow>
          if s = [] \<or> d = [] then (False, fs)
          else if s = d then (True, fs)
          else if prefix s d \<or> \<not> is_dir (lookup fs (butlast d)) then (False, fs)
          else if (case lookup fs d of None \<Rightarrow> True
                   | Some (HFile b) \<Rightarrow> \<not> is_dir (Some n)
                   | Some (HDir es) \<Rightarrow> is_dir (Some n) \<and> es = [])
               then (True, put_at d n (remove_at s fs))
               else (False, fs))"

text \<open>
  The tree a directory scan returns. \<open>size_e\<close> is the file length of a file entry and the
  number of descendants of a directory entry.
\<close>

datatype FSTEntry = FSTEntry (isDirectory: bool) (size_e: u64) (physicalName: string)
  (virtualName: string) (children: "FSTEntry list")

definition entries_size :: "FSTEntry list \<Rightarrow> u64" where
  "entries_size cs = fold (\<lambda>entry acc. acc + (if isDirectory entry then size_e entry else 0) + 1) cs 0"

fun scan_node :: "bool \<Rightarrow> string \<Rightarrow> string \<Rightarrow> hnode \<Rightarrow> FSTEntry"
and scan_list :: "bool \<Rightarrow> string \<Rightarrow> (string \<times> hnode) list \<Rightarrow> FSTEntry list" where
  "scan_node recursive phys virt (HFile b) = FSTEntry False (of_nat (length b)) phys virt []"
| "scan_node recursive phys virt (HDir es) =
     (if recursive
      then (let cs = scan_list recursive phys es in FSTEntry True (entries_size cs) phys virt cs)
      else FSTEntry True 0 phys virt [])"
| "scan_list recursive dir [] = []"
| "scan_list recursive dir ((n, c) # es) =
     scan_node recursive (dir @ DIR_SEP @ n) n c # scan_list recursive dir es"

definition File_ScanDirectoryTree :: "hnode \<Rightarrow> string \<Rightarrow> bool \<Rightarrow> FSTEntry" where
  "File_ScanDirectoryTree fs directory recursive =
     (case lookup fs (split_path directory) of
        Some (HDir es) \<Rightarrow>
          (let cs = scan_list recursive directory es in FSTEntry True (entries_size cs) directory [] cs)
      | _ \<Rightarrow> FSTEntry True 0 directory [] [])"

section \<open>The device: path check, reply, usage accounting\<close>

text \<open>\<open>s.compare(pos, len, lit) == 0\<close> of \<open>std::string\<close>.\<close>

definition compare_eq :: "string \<Rightarrow> nat \<Rightarrow> nat \<Rightarrow> string \<Rightarrow> bool" where
  "compare_eq s pos len lit = (take len (drop pos s) = lit)"

definition IsValidWiiPath :: "string \<Rightarrow> bool" where
  "IsValidWiiPath path = compare_eq path 0 1 ''/''"

definition GetFSReply :: "host_env \<Rightarrow> IOSReturnCode \<Rightarrow> IPCCommandResult" where
  "GetFSReply env rv =
     \<lparr>return_value = rv, send_reply = True, reply_delay_ticks = GetTicksPerSecond env div 500\<rparr>"

fun ComputeTotalFileSize :: "FSTEntry \<Rightarrow> u64" where
  "ComputeTotalFileSize (FSTEntry d s p v cs) =
     fold (\<lambda>entry sizeOfFiles.
             if isDirectory entry then sizeOfFiles + ComputeTotalFileSize entry
             else sizeOfFiles + size_e entry) cs 0"

section \<open>The vectored dispatcher\<close>

text \<open>
  \<open>v[i]\<close> on a \<open>std::vector\<close>: an index out of range has no defined behaviour, which the
  model reports as \<open>None\<close>.
\<close>

definition vec_at :: "'a list \<Rightarrow> nat \<Rightarrow> 'a option" where
  "vec_at xs i = (if i < length xs then Some (xs ! i) else None)"

definition set_virtualName :: "string \<Rightarrow> FSTEntry \<Rightarrow> FSTEntry" where
  "set_virtualName v e = FSTEntry (isDirectory e) (size_e e) (physicalName e) v (children e)"

text \<open>
  The loop that packs the names: \<open>i\<close> is the index, \<open>pFilename\<close> the write position and
  \<open>numFiles\<close> the count so far.
\<close>

function ReadDir_loop ::
  "FSTEntry list \<Rightarrow> u32 \<Rightarrow> nat \<Rightarrow> nat \<Rightarrow> nat \<Rightarrow> memory \<Rightarrow> nat \<times> memory" where
  "ReadDir_loop cs MaxEntries i pFilename numFiles mem =
     (if i < length cs \<and> i < unat MaxEntries
      then (let FileName = virtualName (cs ! i);
                mem = strcpy pFilename FileName mem;
                pFilename = pFilename + length FileName;
                mem = mem(pFilename := CHR 0x00);
                pFilename = pFilename + 1;
                numFiles = numFiles + 1
            in ReadDir_loop cs MaxEntries (i + 1) pFilename numFiles mem)
      else (numFiles, mem))"
  by pat_completeness auto
termination
  by (relation "measure (\<lambda>(cs, MaxEntries, i, pFilename, numFiles, mem). length cs - i)") auto

declare ReadDir_loop.simps [simp del]

definition IOCtlV ::
  "host_env \<Rightarrow> hnode \<Rightarrow> IOSIOCtlVRequest \<Rightarrow> memory \<Rightarrow> (IPCCommandResult \<times> memory) option" where
  "IOCtlV env fs req mem =
     (let return_value = IPC_SUCCESS in
      case request_v req of
        IOCTLV_READ_DIR \<Rightarrow>
          (case vec_at (in_vectors req) 0 of
             None \<Rightarrow> None
           | Some in0 \<Rightarrow>
               let relative_path = GetString mem (address in0) (size_v in0) in
               if \<not> IsValidWiiPath relative_path then Some (GetFSReply env FS_EINVAL, mem)
               else
                 let DirName = HLE_IPC_BuildFilename env relative_path in
                 if \<not> File_Exists fs DirName then Some (GetFSReply env FS_ENOENT, mem)
                 else if \<not> File_IsDirectory fs DirName then Some (GetFSReply env FS_EINVAL, mem)
                 else
                   let entry = File_ScanDirectoryTree fs DirName False in
                   if length (in_vectors req) = 1 \<and> length (io_vectors req) = 1
                   then
                     (case vec_at (io_vectors req) 0 of
                        None \<Rightarrow> None
                      | Some io0 \<Rightarrow>
                          Some (GetFSReply env IPC_SUCCESS,
                                Write_U32 (of_nat (length (children entry))) (address io0) mem))
                   else
                     (case vec_at (io_vectors req) 0 of
                        None \<Rightarrow> None
                      | Some io0 \<Rightarrow>
                          let cs = map (\<lambda>child. set_virtualName
                                          (UnescapeFileName env (virtualName child)) child)
                                     (children entry);
                              cs = sort_key virtualName cs;
                              MaxEntries = Read_U32 mem (address in0);
                              mem = Memset (address io0) (CHR 0x00) (size_v io0) mem;
                              (numFiles, mem) = ReadDir_loop cs MaxEntries 0 (unat (address io0)) 0 mem
                          in (case vec_at (io_vectors req) 1 of
                                None \<Rightarrow> None
                              | Some io1 \<Rightarrow>
                                  Some (GetFSReply env IPC_SUCCESS,
                                        Write_U32 (of_nat numFiles) (address io1) mem))))
      | IOCTLV_GETUSAGE \<Rightarrow>
          (case vec_at (in_vectors req) 0 of
             None \<Rightarrow> None
           | Some in0 \<Rightarrow>
               let relativepath = GetString mem (address in0) (size_v in0) in
               if \<not> IsValidWiiPath relativepath then Some (GetFSReply env FS_EINVAL, mem)
               else
                 let path = HLE_IPC_BuildFilename env relativepath;
                     (fsBlocks, iNodes) =
                       (if File_IsDirectory fs path
                        then (if compare_eq relativepath 0 16 ''/title/00010001'' \<or>
                                 compare_eq relativepath 0 16 ''/title/00010005''
                              then (23, 42)
                              else (let parentDir = File_ScanDirectoryTree fs path True;
                                        iNodes = 1 + ucast (size_e parentDir);
                                        totalSize = ComputeTotalFileSize parentDir
                                    in (ucast (totalSize div (16 * 1024)), iNodes)))
                        else (0, 0))
                 in (case vec_at (io_vectors req) 0 of
                       None \<Rightarrow> None
                     | Some io0 \<Rightarrow>
                         (case vec_at (io_vectors req) 1 of
                            None \<Rightarrow> None
                          | Some io1 \<Rightarrow>
                              Some (GetFSReply env IPC_SUCCESS,
                                    Write_U32 iNodes (address io1)
                                      (Write_U32 fsBlocks (address io0) mem)))))
      | _ \<Rightarrow> Some (GetFSReply env return_value, mem))"

section \<open>The scalar dispatcher\<close>

text \<open>
  Modelled from the spec: the statistics record is declared in the device header, a
  fixed-width record of seven 32-bit integers (28 bytes). \<open>memcpy\<close> copies its in-memory
  image, the images of the seven fields in order.
\<close>

record NANDStat =
  BlockSize :: u32
  FreeUserBlocks :: u32
  UsedUserBlocks :: u32
  FreeSysBlocks :: u32
  UsedSysBlocks :: u32
  Free_INodes :: u32
  Used_Inodes :: u32

definition NANDStat_image :: "host_env \<Rightarrow> NANDStat \<Rightarrow> string" where
  "NANDStat_image env fs =
     concat (map (u32_image env)
       [BlockSize fs, FreeUserBlocks fs, UsedUserBlocks fs, FreeSysBlocks fs,
        UsedSysBlocks fs, Free_INodes fs, Used_Inodes fs])"

definition ExecuteCommand ::
  "host_env \<Rightarrow> IOSIOCtlRequest \<Rightarrow> hnode \<Rightarrow> memory \<Rightarrow> IOSReturnCode \<times> hnode \<times> memory" where
  "ExecuteCommand env req fs mem =
     (case request req of
        IOCTL_GET_STATS \<Rightarrow>
          if buffer_out_size req < 0x1c then (ReturnValue (- 1017), fs, mem)
          else
            (let stat = \<lparr>BlockSize = 0x4000, FreeUserBlocks = 0x5DEC, UsedUserBlocks = 0x1DD4,
                         FreeSysBlocks = 0x10, UsedSysBlocks = 0x02F0, Free_INodes = 0x146B,
                         Used_Inodes = 0x0394\<rparr>
             in (IPC_SUCCESS, fs, write_bytes (unat (buffer_out req)) (NANDStat_image env stat) mem))
      | IOCTL_CREATE_DIR \<Rightarrow>
          (let Addr = buffer_in req + 4 + 2;
               wii_path = GetString mem Addr 64
           in if \<not> IsValidWiiPath wii_path then (FS_EINVAL, fs, mem)
              else (let DirName = HLE_IPC_BuildFilename env wii_path @ DIR_SEP
                    in (IPC_SUCCESS, File_CreateFullPath DirName fs, mem)))
      | IOCTL_SET_ATTR \<Rightarrow>
          (let Addr = buffer_in req + 4 + 2;
               wii_path = GetString mem Addr 64
           in if \<not> IsValidWiiPath wii_path then (FS_EINVAL, fs, mem)
              else (IPC_SUCCESS, fs, mem))
      | IOCTL_GET_ATTR \<Rightarrow>
          (let OwnerID = 0;
               GroupID = 0x3031;
               wii_path = GetString mem (buffer_in req) 64
           in if \<not> IsValidWiiPath wii_path then (FS_EINVAL, fs, mem)
              else
                (let Filename = HLE_IPC_BuildFilename env wii_path;
                     OwnerPerm = CHR 0x03;
                     GroupPerm = CHR 0x03;
                     OtherPerm = CHR 0x03;
                     Attributes = CHR 0x00
                 in if \<not> File_IsDirectory fs Filename \<and> \<not> File_Exists fs Filename
                    then (FS_ENOENT, fs, mem)
                    else if buffer_out_size req = 76
                    then
                      (let Addr = buffer_out req;
                           mem = Write_U32 OwnerID Addr mem;
                           Addr = Addr + 4;
                           mem = Write_U16 GroupID Addr mem;
                           Addr = Addr + 2;
                           mem = write_bytes (unat Addr) (read_bytes mem (unat (buffer_in req)) 64) mem;
                           Addr = Addr + 64;
                           mem = Write_U8 OwnerPerm Addr mem;
                           Addr = Addr + 1;
                           mem = Write_U8 GroupPerm Addr mem;
                           Addr = Addr + 1;
                           mem = Write_U8 OtherPerm Addr mem;
                           Addr = Addr + 1;
                           mem = Write_U8 Attributes Addr mem
                       in (IPC_SUCCESS, fs, mem))
                    else (IPC_SUCCESS, fs, mem)))
      | IOCTL_DELETE_FILE \<Rightarrow>
          (let wii_path = GetString mem (buffer_in req) 64
           in if \<not> IsValidWiiPath wii_path then (FS_EINVAL, fs, mem)
              else
                (let Filename = HLE_IPC_BuildFilename env wii_path;
                     (deleted, fs) = File_Delete Filename fs
                 in if deleted then (IPC_SUCCESS, fs, mem)
                    else (let (deleted, fs) = File_DeleteDir Filename fs
                          in (IPC_SUCCESS, fs, mem))))
      | IOCTL_RENAME_FILE \<Rightarrow>
          (let wii_path = GetString mem (buffer_in req) 64
           in if \<not> IsValidWiiPath wii_path then (FS_EINVAL, fs, mem)
              else
                (let Filename = HLE_IPC_BuildFilename env wii_path;
                     wii_path_rename = GetString mem (buffer_in req + 64) 64
                 in if \<not> IsValidWiiPath wii_path_rename then (FS_EINVAL, fs, mem)
                    else
                      (let FilenameRename = HLE_IPC_BuildFilename env wii_path_rename;
                           fs = File_CreateFullPath FilenameRename fs;
                           fs = (if File_Exists fs Filename \<and> File_Exists fs FilenameRename
                                 then snd (File_Delete FilenameRename fs) else fs);
                           (renamed, fs) = File_Rename Filename FilenameRename fs
                       in if renamed then (IPC_SUCCESS, fs, mem) else (FS_ENOENT, fs, mem))))
      | IOCTL_CREATE_FILE \<Rightarrow>
          (let Addr = buffer_in req + 4 + 2;
               wii_path = GetString mem Addr 64
           in if \<not> IsValidWiiPath wii_path then (FS_EINVAL, fs, mem)
              else
                (let Filename = HLE_IPC_BuildFilename env wii_path
                 in if File_Exists fs Filename then (FS_EEXIST, fs, mem)
                    else
                      (let fs = File_CreateFullPath Filename fs;
                           (Result, fs) = File_CreateEmptyFile Filename fs
                       in if \<not> Result then (FS_EINVAL, fs, mem) else (IPC_SUCCESS, fs, mem))))
      | IOCTL_SHUTDOWN \<Rightarrow> (FS_EINVAL, fs, mem)
      | _ \<Rightarrow> (FS_EINVAL, fs, mem))"

definition IOCtl ::
  "host_env \<Rightarrow> IOSIOCtlRequest \<Rightarrow> hnode \<Rightarrow> memory \<Rightarrow> IPCCommandResult \<times> hnode \<times> memory" where
  "IOCtl env req fs mem =
     (let mem = Memset (buffer_out req) (CHR 0x00) (buffer_out_size req) mem;
          (return_value, fs, mem) = ExecuteCommand env req fs mem
      in (GetFSReply env return_value, fs, mem))"

section \<open>The snapshot stream\<close>

text \<open>
  Modelled from the spec: the snapshot stream (\<open>PointerWrap\<close>) is outside the sources at
  hand. The stream is the sequence of the fields passed to \<open>Do\<close> and \<open>DoArray\<close>: a type
  tag, a name, a 32-bit length, a chunk of raw bytes. In read mode \<open>Do\<close> takes the next
  field off the stream, and a stream that is exhausted or holds another kind of field
  there is a failed read (\<open>None\<close>); in write mode \<open>Do\<close> appends the field. The measure
  and verify modes pass the same fields as the write mode and are modelled as it is.
\<close>

datatype field = FChar char | FString string | FU32 u32 | FArray string

datatype Mode = MODE_READ | MODE_WRITE | MODE_MEASURE | MODE_VERIFY

record PointerWrap =
  mode :: Mode
  stream :: "field list"

fun DoArray_read :: "nat \<Rightarrow> field list \<Rightarrow> (string \<times> field list) option" where
  "DoArray_read n (FArray bs # s) = (if length bs = n then Some (bs, s) else None)"
| "DoArray_read n s = None"

text \<open>
  The local \<open>char buf[65536]\<close> of the save branch starts with whatever the stack holds,
  the bytes \<open>junk 0\<close>, \<open>junk 1\<close>, ...
\<close>

definition stack_buf :: "(nat \<Rightarrow> char) \<Rightarrow> string" where
  "stack_buf junk = map junk [0 ..< 65536]"

text \<open>\<open>ReadArray(&buf[0], n)\<close>: the bytes read overwrite the front of the buffer.\<close>

definition ReadArray :: "nat \<Rightarrow> string \<Rightarrow> string \<Rightarrow> string \<times> string" where
  "ReadArray n handle buf =
     (let chunk = take n handle in (chunk @ drop (length chunk) buf, drop n handle))"

section \<open>Saving and restoring the scratch directory\<close>

text \<open>
  The chunk loop of the restore branch: \<open>count\<close> bytes are taken off the stream in chunks
  of 65536 bytes and a last chunk of at most that, and written to the file handle.
\<close>

function restore_file_loop ::
  "u32 \<Rightarrow> field list \<Rightarrow> string \<Rightarrow> (string \<times> field list) option" where
  "restore_file_loop count s written =
     (if 65536 < count
      then (case DoArray_read 65536 s of
              None \<Rightarrow> None
            | Some (buf, s) \<Rightarrow> restore_file_loop (count - 65536) s (written @ buf))
      else (case DoArray_read (unat count) s of
              None \<Rightarrow> None
            | Some (buf, s) \<Rightarrow> Some (written @ buf, s)))"
  by pat_completeness auto
termination
proof (relation "measure (\<lambda>(count, s, written). unat count)")
  show "wf (measure (\<lambda>(count, s, written). unat count))"
    by simp
next
  fix count :: u32 and s :: "field list" and written :: string
    and x2 :: "string \<times> field list" and x y
  assume "65536 < count"
  then have "unat (count - 65536) < unat count"
    by (simp add: word_less_nat_alt unat_sub word_le_nat_alt)
  then show "((count - 65536, y, written @ x), count, s, written)
             \<in> measure (\<lambda>(count, s, written). unat count)"
    by simp
qed

declare restore_file_loop.simps [simp del]

lemma DoArray_read_shorter:
  "DoArray_read n s = Some (buf, s') \<Longrightarrow> length s' < length s"
  by (cases "(n, s)" rule: DoArray_read.cases) (auto split: if_splits)

lemma restore_file_loop_shorter:
  "restore_file_loop count s written = Some (data, s') \<Longrightarrow> length s' < length s"
proof (induction count s written rule: restore_file_loop.induct)
  case (1 count s written)
  show ?case
  proof (cases "65536 < count")
    case True
    then obtain buf s1 where r: "DoArray_read 65536 s = Some (buf, s1)"
      and rec: "restore_file_loop (count - 65536) s1 (written @ buf) = Some (data, s')"
      using "1.prems" by (subst (asm) restore_file_loop.simps) (auto split: option.splits)
    have "length s' < length s1"
      using "1.IH" [OF True r refl rec] .
    then show ?thesis
      using DoArray_read_shorter [OF r] by simp
  next
    case False
    then obtain buf where r: "DoArray_read (unat count) s = Some (buf, s')"
      using "1.prems" by (subst (asm) restore_file_loop.simps) (auto split: option.splits)
    then show ?thesis
      by (rule DoArray_read_shorter)
  qed
qed

text \<open>
  The \<open>while (1)\<close> loop of the restore branch. \<open>File::IOFile handle(name, "wb")\<close> with
  the writes of the chunk loop and the close at the end of the block is one \<open>IOFile_wb\<close>.
\<close>

function restore_loop :: "string \<Rightarrow> field list \<Rightarrow> hnode \<Rightarrow> (field list \<times> hnode) option" where
  "restore_loop Path s fs =
     (case s of
        FChar type # s \<Rightarrow>
          if type = CHR 0x00 then Some (s, fs)
          else
            (case s of
               FString filename # s \<Rightarrow>
                 (let name = Path @ DIR_SEP @ filename in
                  if type = CHR ''d'' then restore_loop Path s (File_CreateDir name fs)
                  else if type = CHR ''f'' then
                    (case s of
                       FU32 size32 # s \<Rightarrow>
                         (case restore_file_loop size32 s [] of
                            None \<Rightarrow> None
                          | Some (data, s) \<Rightarrow> restore_loop Path s (IOFile_wb name data fs))
                     | _ \<Rightarrow> None)
                  else restore_loop Path s fs)
             | _ \<Rightarrow> None)
      | _ \<Rightarrow> None)"
  by pat_completeness auto
termination
  by (relation "measure (\<lambda>(Path, s, fs). length s)")
    (auto dest: restore_file_loop_shorter)

declare restore_loop.simps [simp del]

text \<open>
  The chunk loop of the save branch: \<open>handle\<close> is what is left to read of the file and
  \<open>buf\<close> the chunk buffer; \<open>DoArray(buf)\<close> passes the whole buffer, \<open>DoArray(&buf[0], count)\<close>
  its first \<open>count\<close> bytes.
\<close>

function save_file_loop :: "u32 \<Rightarrow> string \<Rightarrow> string \<Rightarrow> field list \<Rightarrow> field list" where
  "save_file_loop count handle buf p =
     (if 65536 < count
      then (let (buf, handle) = ReadArray 65536 handle buf;
                p = p @ [FArray (take 65536 buf)]
            in save_file_loop (count - 65536) handle buf p)
      else (let (buf, handle) = ReadArray (unat count) handle buf
            in p @ [FArray (take (unat count) buf)]))"
  by pat_completeness auto
termination
proof (relation "measure (\<lambda>(count, handle, buf, p). unat count)")
  show "wf (measure (\<lambda>(count, handle, buf, p). unat count))"
    by simp
next
  fix count :: u32 and handle buf :: string and p :: "field list" and x xa y xb
  assume "65536 < count"
  then have "unat (count - 65536) < unat count"
    by (simp add: word_less_nat_alt unat_sub word_le_nat_alt)
  then show "((count - 65536, y, xa, xb), count, handle, buf, p)
             \<in> measure (\<lambda>(count, handle, buf, p). unat count)"
    by simp
qed

declare save_file_loop.simps [simp del]

text \<open>The \<open>while (!todo.empty())\<close> loop of the save branch over the deque \<open>todo\<close>.\<close>

function save_loop ::
  "hnode \<Rightarrow> string \<Rightarrow> (nat \<Rightarrow> char) \<Rightarrow> FSTEntry list \<Rightarrow> field list \<Rightarrow> field list" where
  "save_loop fs Path junk [] p = p"
| "save_loop fs Path junk (entry # todo) p =
     (let name = drop (length Path + 1) (physicalName entry);
          type = (if isDirectory entry then CHR ''d'' else CHR ''f'');
          p = p @ [FChar type];
          p = p @ [FString name]
      in if isDirectory entry
         then save_loop fs Path junk (todo @ children entry) p
         else (let size32 = ucast (size_e entry);
                   p = p @ [FU32 size32];
                   p = save_file_loop size32 (IOFile_rb fs (physicalName entry)) (stack_buf junk) p
               in save_loop fs Path junk todo p))"
  by pat_completeness auto
termination
proof (relation "measure (\<lambda>(fs, Path, junk, todo, p). size_list size todo)")
  show "wf (measure (\<lambda>(fs, Path, junk, todo, p). size_list size todo))"
    by simp
next
  fix fs :: hnode and Path :: string and junk :: "nat \<Rightarrow> char" and entry :: FSTEntry
    and todo :: "FSTEntry list" and p x xa xb xc :: "field list"
  show "((fs, Path, junk, todo @ children entry, xc), fs, Path, junk, entry # todo, p)
        \<in> measure (\<lambda>(fs, Path, junk, todo, p). size_list size todo)"
    by (cases entry) simp
next
  fix fs :: hnode and Path :: string and junk :: "nat \<Rightarrow> char" and entry :: FSTEntry
    and todo :: "FSTEntry list" and p xe :: "field list"
  show "((fs, Path, junk, todo, xe), fs, Path, junk, entry # todo, p)
        \<in> measure (\<lambda>(fs, Path, junk, todo, p). size_list size todo)"
    by simp
qed

declare save_loop.simps [simp del]

text \<open>
  \<open>DoState\<close>, the part that handles \<open>/tmp\<close>. \<open>DoStateShared\<close>, which passes the fields of
  the device base class before it, is outside the sources at hand and left out.
\<close>

definition DoState ::
  "host_env \<Rightarrow> (nat \<Rightarrow> char) \<Rightarrow> PointerWrap \<Rightarrow> hnode \<Rightarrow> (PointerWrap \<times> hnode) option" where
  "DoState env junk p fs =
     (let Path = GetUserPath_SESSION_WIIROOT env @ ''/tmp'' in
      if mode p = MODE_READ
      then
        (let fs = File_DeleteDirRecursively Path fs;
             fs = File_CreateDir Path fs
         in case restore_loop Path (stream p) fs of
              None \<Rightarrow> None
            | Some (s, fs) \<Rightarrow> Some (p\<lparr>stream := s\<rparr>, fs))
      else
        (let parentEntry = File_ScanDirectoryTree fs Path True;
             todo = children parentEntry;
             s = save_loop fs Path junk todo (stream p);
             s = s @ [FChar (CHR 0x00)]
         in Some (p\<lparr>stream := s\<rparr>, fs)))"

section \<open>Measures of a host tree\<close>

text \<open>
  The number of descendants of a node and the bytes of the files below it, as the spec
  words them: every entry below a directory counts once, and only files carry bytes.
\<close>

fun descendants :: "hnode \<Rightarrow> nat"
and descendants_list :: "(string \<times> hnode) list \<Rightarrow> nat" where
  "descendants (HFile b) = 0"
| "descendants (HDir es) = descendants_list es"
| "descendants_list [] = 0"
| "descendants_list ((n, c) # es) = 1 + descendants c + descendants_list es"

fun file_bytes :: "hnode \<Rightarrow> nat"
and file_bytes_list :: "(string \<times> hnode) list \<Rightarrow> nat" where
  "file_bytes (HFile b) = length b"
| "file_bytes (HDir es) = file_bytes_list es"
| "file_bytes_list [] = 0"
| "file_bytes_list ((n, c) # es) = file_bytes c + file_bytes_list es"

text \<open>What one scanned entry adds to the descendant count and to the byte total of its parent.\<close>

definition entry_desc :: "FSTEntry \<Rightarrow> u64" where
  "entry_desc e = (if isDirectory e then size_e e else 0)"

definition entry_bytes :: "FSTEntry \<Rightarrow> u64" where
  "entry_bytes e = (if isDirectory e then ComputeTotalFileSize e else size_e e)"

text \<open>
  The little-endian image of a 32-bit integer, and reading the statistics record back from
  such an image, field by field.
\<close>

definition le_bytes32 :: "u32 \<Rightarrow> string" where
  "le_bytes32 v = rev (be_bytes32 v)"

definition read_le32 :: "memory \<Rightarrow> nat \<Rightarrow> u32" where
  "read_le32 m p = word_of_nat (foldr (\<lambda>c acc. of_char c + 256 * acc) (read_bytes m p 4) 0)"

definition read_NANDStat :: "memory \<Rightarrow> nat \<Rightarrow> NANDStat" where
  "read_NANDStat m p =
     \<lparr>BlockSize = read_le32 m p, FreeUserBlocks = read_le32 m (p + 4),
      UsedUserBlocks = read_le32 m (p + 8), FreeSysBlocks = read_le32 m (p + 12),
      UsedSysBlocks = read_le32 m (p + 16), Free_INodes = read_le32 m (p + 20),
      Used_Inodes = read_le32 m (p + 24)\<rparr>"

section \<open>Concrete inputs\<close>

definition w_env :: host_env where
  "w_env = \<lparr>GetUserPath_SESSION_WIIROOT = ''/wii'', HLE_IPC_BuildFilename = (\<lambda>p. ''/wii'' @ p),
            UnescapeFileName = (\<lambda>s. s), GetTicksPerSecond = 729000000,
            u32_image = le_bytes32\<rparr>"

definition w_fs :: hnode where
  "w_fs = HDir [(''wii'', HDir
     [(''tmp'', HDir [(''b'', HFile ''xy''), (''a'', HDir [(''c'', HFile [])])]),
      (''title'', HDir [(''00010005'', HDir [(''x'', HFile ''abc'')])])])]"

definition w_mem :: memory where
  "w_mem = write_bytes 0x500 ''/title/00010005'' (write_bytes 0x400 ''/title/00010001''
     (write_bytes 0x106 ''/tmp/b'' (write_bytes 0x100 ''/tmp'' (\<lambda>a. CHR 0x00))))"

definition w_getusage :: IOSIOCtlVRequest where
  "w_getusage = \<lparr>request_v = IOCTLV_GETUSAGE, in_vectors = [\<lparr>address = 0x100, size_v = 5\<rparr>],
     io_vectors = [\<lparr>address = 0x200, size_v = 4\<rparr>, \<lparr>address = 0x204, size_v = 4\<rparr>]\<rparr>"

definition w_get_stats :: IOSIOCtlRequest where
  "w_get_stats = \<lparr>request = IOCTL_GET_STATS, buffer_in = 0, buffer_in_size = 0,
     buffer_out = 0x300, buffer_out_size = 28\<rparr>"

definition w_create_file :: IOSIOCtlRequest where
  "w_create_file = \<lparr>request = IOCTL_CREATE_FILE, buffer_in = 0x100, buffer_in_size = 74,
     buffer_out = 0, buffer_out_size = 0\<rparr>"


definition w_getusage_legacy1 :: IOSIOCtlVRequest where
  "w_getusage_legacy1 = \<lparr>request_v = IOCTLV_GETUSAGE,
     in_vectors = [\<lparr>address = 0x400, size_v = 16\<rparr>],
     io_vectors = [\<lparr>address = 0x200, size_v = 4\<rparr>, \<lparr>address = 0x204, size_v = 4\<rparr>]\<rparr>"

definition w_getusage_legacy5 :: IOSIOCtlVRequest where
  "w_getusage_legacy5 = \<lparr>request_v = IOCTLV_GETUSAGE,
     in_vectors = [\<lparr>address = 0x500, size_v = 16\<rparr>],
     io_vectors = [\<lparr>address = 0x200, size_v = 4\<rparr>, \<lparr>address = 0x204, size_v = 4\<rparr>]\<rparr>"

definition w_read_dir :: IOSIOCtlVRequest where
  "w_read_dir = \<lparr>request_v = IOCTLV_READ_DIR,
     in_vectors = [\<lparr>address = 0x100, size_v = 5\<rparr>, \<lparr>address = 0x700, size_v = 4\<rparr>],
     io_vectors = [\<lparr>address = 0x600, size_v = 16\<rparr>, \<lparr>address = 0x204, size_v = 4\<rparr>]\<rparr>"

text \<open>
  The sample memory with the word 1 at \<open>0x700\<close>, where the second input vector of the
  listing request points.
\<close>

definition w_mem_cap :: memory where
  "w_mem_cap = Write_U32 1 0x700 w_mem"

text \<open>A scratch directory whose one file has \<open>2 ^ 46\<close> bytes, that is \<open>2 ^ 32\<close> blocks of 16 KiB.\<close>

definition w_fs_huge :: hnode where
  "w_fs_huge = HDir [(''wii'', HDir [(''tmp'', HDir
     [(''big'', HFile (replicate 70368744177664 (CHR ''x'')))])])]"

section \<open>The stream as a sequence of records\<close>

text \<open>
  The type tags of the records of a stream, read by the record format of the spec: a
  record is a type tag and a name, a file record (tag \<open>f\<close>) carries a 32-bit length and
  that many bytes in chunks of 64 KiB after them, and a record with the zero tag has
  neither name nor payload. The whole stream is read, also behind a zero tag.
\<close>

function stream_tags :: "field list \<Rightarrow> char list option" where
  "stream_tags s =
     (case s of
        [] \<Rightarrow> Some []
      | FChar type # s \<Rightarrow>
          if type = CHR 0x00 then map_option (Cons type) (stream_tags s)
          else
            (case s of
               FString name # s \<Rightarrow>
                 if type = CHR ''f'' then
                   (case s of
                      FU32 size32 # s \<Rightarrow>
                        (case restore_file_loop size32 s [] of
                           None \<Rightarrow> None
                         | Some (data, s) \<Rightarrow> map_option (Cons type) (stream_tags s))
                    | _ \<Rightarrow> None)
                 else map_option (Cons type) (stream_tags s)
             | _ \<Rightarrow> None)
      | _ \<Rightarrow> None)"
  by pat_completeness auto
termination
  by (relation "measure length") (auto dest: restore_file_loop_shorter)

declare stream_tags.simps [simp del]

text \<open>The fields one iteration of the save loop passes for the entry at the front.\<close>

definition entry_fields :: "hnode \<Rightarrow> string \<Rightarrow> (nat \<Rightarrow> char) \<Rightarrow> FSTEntry \<Rightarrow> field list" where
  "entry_fields fs Path junk entry =
     [FChar (if isDirectory entry then CHR ''d'' else CHR ''f''),
      FString (drop (length Path + 1) (physicalName entry))] @
     (if isDirectory entry then []
      else FU32 (ucast (size_e entry)) #
           save_file_loop (ucast (size_e entry)) (IOFile_rb fs (physicalName entry))
             (stack_buf junk) [])"

text \<open>What a save appends to the stream.\<close>

definition tmp_stream :: "host_env \<Rightarrow> (nat \<Rightarrow> char) \<Rightarrow> hnode \<Rightarrow> field list" where
  "tmp_stream env junk fs =
     (let Path = GetUserPath_SESSION_WIIROOT env @ ''/tmp''
      in save_loop fs Path junk (children (File_ScanDirectoryTree fs Path True)) []
         @ [FChar (CHR 0x00)])"

text \<open>Concrete inputs for the snapshot: stack contents, the stream of the sample tree, a host tree to restore into.\<close>

definition w_junk :: "nat \<Rightarrow> char" where
  "w_junk i = CHR ''?''"

definition w_stream :: "field list" where
  "w_stream = [FChar (CHR ''f''), FString ''b'', FU32 2, FArray ''xy'',
               FChar (CHR ''d''), FString ''a'',
               FChar (CHR ''f''), FString ''a/c'', FU32 0, FArray [],
               FChar (CHR 0x00)]"

definition w_fs_restore :: hnode where
  "w_fs_restore = HDir [(''wii'', HDir [(''tmp'', HDir [(''old'', HFile ''zzz'')])])]"

section \<open>Paths, kinds and well-formed host trees\<close>

text \<open>
  What a path names in a host tree: nothing, a directory, or a file with its bytes. Two
  trees hold the same relative paths with the same file contents below a directory when
  \<open>stat\<close> agrees on every path below it.
\<close>

datatype kind = KFile string | KDir

fun kind_of :: "hnode \<Rightarrow> kind" where
  "kind_of (HFile b) = KFile b"
| "kind_of (HDir es) = KDir"

definition stat :: "hnode \<Rightarrow> string list \<Rightarrow> kind option" where
  "stat fs p = map_option kind_of (lookup fs p)"

text \<open>The relative name of a component path, and the names a host file system allows.\<close>

fun join :: "string list \<Rightarrow> string" where
  "join [] = []"
| "join [c] = c"
| "join (c # cs) = c @ DIR_SEP @ join cs"

definition names_ok :: "string list \<Rightarrow> bool" where
  "names_ok r = list_all (\<lambda>c. c \<noteq> [] \<and> CHR ''/'' \<notin> set c) r"

text \<open>
  A well-formed host tree: the names in a directory are distinct, non-empty and free of
  the separator. \<open>files_small\<close>: every file is shorter than \<open>2 ^ 32\<close> bytes, the range of
  the 32-bit length field.
\<close>

fun wf_node :: "hnode \<Rightarrow> bool"
and wf_list :: "(string \<times> hnode) list \<Rightarrow> bool" where
  "wf_node (HFile b) = True"
| "wf_node (HDir es) = (distinct (map fst es) \<and> wf_list es)"
| "wf_list [] = True"
| "wf_list ((n, c) # es) = (n \<noteq> [] \<and> CHR ''/'' \<notin> set n \<and> wf_node c \<and> wf_list es)"

fun files_small :: "hnode \<Rightarrow> bool"
and files_small_list :: "(string \<times> hnode) list \<Rightarrow> bool" where
  "files_small (HFile b) = (length b < 2 ^ 32)"
| "files_small (HDir es) = files_small_list es"
| "files_small_list [] = True"
| "files_small_list ((n, c) # es) = (files_small c \<and> files_small_list es)"

text \<open>
  The order in which the save loop visits the nodes below the scratch directory, on
  component paths: breadth first. \<open>rec_fields\<close> is the record of one node and
  \<open>apply_item\<close> what the restore loop does with that record.
\<close>

definition child_items :: "string list \<Rightarrow> hnode \<Rightarrow> (string list \<times> hnode) list" where
  "child_items r n =
     (case n of HDir cs \<Rightarrow> map (\<lambda>(name, c). (r @ [name], c)) cs | HFile b \<Rightarrow> [])"

lemma child_items_measure:
  "sum_list (map (\<lambda>(r, n). Suc (descendants n)) (child_items r n)) = descendants n"
proof (cases n)
  case (HFile b)
  then show ?thesis by (simp add: child_items_def)
next
  case (HDir cs)
  have "sum_list (map (\<lambda>(r, n). Suc (descendants n)) (map (\<lambda>(name, c). (r @ [name], c)) cs))
        = descendants_list cs"
    by (induction cs) auto
  then show ?thesis using HDir by (simp add: child_items_def)
qed

function bfs :: "(string list \<times> hnode) list \<Rightarrow> (string list \<times> hnode) list" where
  "bfs [] = []"
| "bfs ((r, n) # q) = (r, n) # bfs (q @ child_items r n)"
  by pat_completeness auto

termination
  by (relation "measure (\<lambda>q. sum_list (map (\<lambda>(r, n). Suc (descendants n)) q))")
    (simp_all add: child_items_measure)

definition rec_fields :: "(nat \<Rightarrow> char) \<Rightarrow> string list \<times> hnode \<Rightarrow> field list" where
  "rec_fields junk it =
     (case it of
        (r, HDir cs) \<Rightarrow> [FChar (CHR ''d''), FString (join r)]
      | (r, HFile b) \<Rightarrow>
          [FChar (CHR ''f''), FString (join r), FU32 (of_nat (length b))] @
          save_file_loop (of_nat (length b)) b (stack_buf junk) [])"

definition apply_item :: "string \<Rightarrow> string list \<times> hnode \<Rightarrow> hnode \<Rightarrow> hnode" where
  "apply_item Path it F =
     (case it of
        (r, HDir cs) \<Rightarrow> File_CreateDir (Path @ DIR_SEP @ join r) F
      | (r, HFile b) \<Rightarrow>
          IOFile_wb (Path @ DIR_SEP @ join r) (take (unat (of_nat (length b) :: u32)) b) F)"

text \<open>A scanned entry and the node it was scanned from.\<close>

definition matches :: "hnode \<Rightarrow> string \<Rightarrow> FSTEntry \<Rightarrow> string list \<times> hnode \<Rightarrow> bool" where
  "matches fs Path e it =
     (case it of (r, n) \<Rightarrow>
        r \<noteq> [] \<and> names_ok r \<and> wf_node n \<and> lookup fs (split_path Path @ r) = Some n \<and>
        e = scan_node True (Path @ DIR_SEP @ join r) (virtualName e) n)"

text \<open>The invariant of the restore along the breadth-first order.\<close>

definition antichain :: "string list list \<Rightarrow> bool" where
  "antichain rs = (distinct rs \<and> (\<forall>a \<in> set rs. \<forall>b \<in> set rs. prefix a b \<longrightarrow> a = b))"

definition item_ok :: "hnode \<Rightarrow> string list \<Rightarrow> hnode \<Rightarrow> string list \<times> hnode \<Rightarrow> bool" where
  "item_ok fs T F it =
     (case it of (r, n) \<Rightarrow>
        r \<noteq> [] \<and> names_ok r \<and> wf_node n \<and> files_small n \<and> lookup fs (T @ r) = Some n \<and>
        stat F (butlast (T @ r)) = Some KDir \<and> stat F (T @ r) = None)"

definition inv :: "hnode \<Rightarrow> string list \<Rightarrow> hnode \<Rightarrow> (string list \<times> hnode) list \<Rightarrow> bool" where
  "inv fs T F items = (list_all (item_ok fs T F) items \<and> antichain (map fst items))"

text \<open>A scratch directory with a file of 4 GiB, its stream, and the sample tree as restored.\<close>

definition w_fs_big :: hnode where
  "w_fs_big = HDir [(''wii'', HDir [(''tmp'', HDir
     [(''big'', HFile (replicate 4294967296 (CHR ''x'')))])])]"

definition w_stream_big :: "field list" where
  "w_stream_big = [FChar (CHR ''f''), FString ''big'', FU32 0, FArray [], FChar (CHR 0x00)]"

definition w_fs_restored :: hnode where
  "w_fs_restored = HDir [(''wii'', HDir [(''tmp'', HDir
     [(''b'', HFile ''xy''), (''a'', HDir [(''c'', HFile [])])])])]"

section \<open>Lemmas about the model\<close>

lemma fold_add_acc:
  "fold (\<lambda>e acc. acc + g e) cs (a :: 'a :: comm_monoid_add) = a + sum_list (map g cs)"
  by (induction cs arbitrary: a) (simp_all add: add.assoc)

lemma entries_size_sum:
  "entries_size cs = sum_list (map (\<lambda>e. (if isDirectory e then size_e e else 0) + 1) cs)"
  unfolding entries_size_def
  using fold_add_acc [of "\<lambda>e. (if isDirectory e then size_e e else 0) + 1" cs 0]
  by (simp add: add.assoc)

lemma ComputeTotalFileSize_sum:
  "ComputeTotalFileSize (FSTEntry d s p v cs) =
     sum_list (map (\<lambda>e. if isDirectory e then ComputeTotalFileSize e else size_e e) cs)"
proof -
  have "(\<lambda>entry sizeOfFiles. if isDirectory entry then sizeOfFiles + ComputeTotalFileSize entry
             else sizeOfFiles + size_e entry)
        = (\<lambda>e acc. acc + (if isDirectory e then ComputeTotalFileSize e else size_e e))"
    by (intro ext) simp
  then show ?thesis
    using fold_add_acc [of "\<lambda>e. if isDirectory e then ComputeTotalFileSize e else size_e e" cs 0]
    by simp
qed

lemma entries_size_sum':
  "entries_size cs = sum_list (map (\<lambda>e. entry_desc e + 1) cs)"
  by (simp add: entries_size_sum entry_desc_def)

lemma ComputeTotalFileSize_sum':
  "ComputeTotalFileSize (FSTEntry d s p v cs) = sum_list (map entry_bytes cs)"
  unfolding ComputeTotalFileSize_sum entry_bytes_def [abs_def] by (rule refl)

lemma scan_facts:
  "entry_desc (scan_node True phys virt n) = of_nat (descendants n)
   \<and> entry_bytes (scan_node True phys virt n) = of_nat (file_bytes n)"
  "sum_list (map (\<lambda>e. entry_desc e + 1) (scan_list True dir es)) = of_nat (descendants_list es)
   \<and> sum_list (map entry_bytes (scan_list True dir es)) = of_nat (file_bytes_list es)"
proof (induction True phys virt n and True dir es rule: scan_node_scan_list.induct)
  case (1 phys virt b)
  then show ?case by (simp add: entry_desc_def entry_bytes_def)
next
  case (2 phys virt es)
  then show ?case
    by (simp add: entry_desc_def entry_bytes_def Let_def ComputeTotalFileSize_sum' entries_size_sum'
        del: ComputeTotalFileSize.simps)
next
  case (3 dir)
  then show ?case by simp
next
  case (4 dir n c es)
  then show ?case by (simp add: ac_simps)
qed

lemma ucast_div_16k:
  "(ucast ((of_nat t :: 64 word) div 16384) :: 32 word) = of_nat (t div 16384)"
proof -
  have "unat (ucast ((of_nat t :: 64 word) div 16384) :: 32 word)
        = take_bit 32 (drop_bit 14 (take_bit 64 t))"
    by (simp add: unsigned_ucast_eq unat_div unat_of_nat drop_bit_eq_div take_bit_eq_mod)
  also have "\<dots> = take_bit 32 (drop_bit 14 t)"
    by (simp add: drop_bit_take_bit)
  also have "\<dots> = unat (of_nat (t div 16384) :: 32 word)"
    by (simp add: unat_of_nat drop_bit_eq_div take_bit_eq_mod)
  finally show ?thesis
    by (simp add: word_unat_eq_iff)
qed

lemma ucast_of_nat_64_32: "(ucast (of_nat c :: 64 word) :: 32 word) = of_nat c"
proof -
  have "unat (ucast (of_nat c :: 64 word) :: 32 word) = take_bit 32 (take_bit 64 c)"
    by (simp add: unsigned_ucast_eq unsigned_of_nat)
  also have "\<dots> = unat (of_nat c :: 32 word)"
    by (simp add: unsigned_of_nat)
  finally show ?thesis
    by (simp add: word_unat_eq_iff)
qed

lemma vec_at_0 [simp]: "vec_at (x # xs) 0 = Some x"
  by (simp add: vec_at_def)

lemma vec_at_1 [simp]: "vec_at (x # y # xs) (Suc 0) = Some y"
  by (simp add: vec_at_def)

lemma valid_not_legacy:
  "take 15 p \<noteq> lit \<Longrightarrow> length lit = 15 \<Longrightarrow> \<not> compare_eq p 0 16 lit"
  by (auto simp: compare_eq_def)

text \<open>
  The legacy test compares the first 16 characters of the path with a literal of 15
  characters, so it holds for the literal itself and for no longer path.
\<close>

lemma legacy_test_exact:
  "length lit = 15 \<Longrightarrow> compare_eq p 0 16 lit \<longleftrightarrow> p = lit"
proof
  assume l: "length lit = 15" and c: "compare_eq p 0 16 lit"
  then have t: "take 16 p = lit" by (simp add: compare_eq_def)
  then have "min (length p) 16 = 15" using l by (metis length_take)
  then have "length p \<le> 16" by simp
  then show "p = lit" using t by simp
next
  assume "length lit = 15" and "p = lit"
  then show "compare_eq p 0 16 lit" by (simp add: compare_eq_def)
qed

lemma write_bytes_below: "q < p \<Longrightarrow> write_bytes p bs m q = m q"
  by (induction bs arbitrary: p m) simp_all

lemma write_bytes_inside:
  "p \<le> q \<Longrightarrow> q < p + length bs \<Longrightarrow> write_bytes p bs m q = bs ! (q - p)"
proof (induction bs arbitrary: p m)
  case Nil
  then show ?case by simp
next
  case (Cons c cs)
  show ?case
  proof (cases "q = p")
    case True
    then show ?thesis by (simp add: write_bytes_below)
  next
    case False
    then have "Suc p \<le> q" and "q < Suc p + length cs" and "q - p = Suc (q - Suc p)"
      using Cons.prems by simp_all
    then show ?thesis by (simp add: Cons.IH)
  qed
qed

lemma write_bytes_at: "i < length bs \<Longrightarrow> write_bytes p bs m (p + i) = bs ! i"
  by (simp add: write_bytes_inside)

lemma read_bytes_write_bytes:
  "k + n \<le> length bs \<Longrightarrow> read_bytes (write_bytes p bs m) (p + k) n = take n (drop k bs)"
  by (rule nth_equalityI) (simp_all add: read_bytes_def write_bytes_at add.assoc)

lemma w_GetString_tmp: "GetString w_mem 0x100 5 = ''/tmp''"
  by (simp add: GetString_def w_mem_def read_bytes_def)

lemma w_GetString_tmp_b: "GetString w_mem 0x106 64 = ''/tmp/b''"
  by (simp add: GetString_def w_mem_def read_bytes_def)


lemma w_GetString_legacy1: "GetString w_mem 0x400 16 = ''/title/00010001''"
  by (simp add: GetString_def w_mem_def read_bytes_def)

lemma w_GetString_legacy5: "GetString w_mem 0x500 16 = ''/title/00010005''"
  by (simp add: GetString_def w_mem_def read_bytes_def)

lemma write_bytes_append:
  "write_bytes p (a @ b) m = write_bytes (p + length a) b (write_bytes p a m)"
  by (induction a arbitrary: p m) simp_all

lemma map_insort_key: "map f (insort_key f x ys) = insort (f x) (map f ys)"
  by (induction ys) simp_all

lemma map_sort_key: "map f (sort_key f xs) = sort (map f xs)"
  by (induction xs) (simp_all add: map_insort_key)

lemma virtualName_scan_node: "virtualName (scan_node r phys virt n) = virt"
  by (cases n) (simp_all add: Let_def)

lemma virtualName_scan_list: "map virtualName (scan_list r d es) = map fst es"
  by (induction es) (auto simp: virtualName_scan_node)

lemma strcpy_no_nul:
  "CHR 0x00 \<notin> set s \<Longrightarrow> strcpy p s m = write_bytes p (s @ [CHR 0x00]) m"
proof -
  assume "CHR 0x00 \<notin> set s"
  then have "takeWhile (\<lambda>c. c \<noteq> CHR 0x00) s = s"
    by (auto simp: takeWhile_eq_all_conv)
  then show ?thesis
    unfolding strcpy_def by (rule arg_cong [where f = "\<lambda>x. write_bytes p (x @ [CHR 0x00]) m"])
qed

lemma ReadDir_loop_closed:
  assumes "\<forall>e \<in> set cs. CHR 0x00 \<notin> set (virtualName e)"
  shows "ReadDir_loop cs MaxEntries i pFilename numFiles mem =
     (numFiles + (min (unat MaxEntries) (length cs) - i),
      write_bytes pFilename
        (concat (map (\<lambda>e. virtualName e @ [CHR 0x00])
           (take (min (unat MaxEntries) (length cs) - i) (drop i cs)))) mem)"
  using assms
proof (induction cs MaxEntries i pFilename numFiles mem rule: ReadDir_loop.induct)
  case (1 cs MaxEntries i pFilename numFiles mem)
  show ?case
  proof (cases "i < length cs \<and> i < unat MaxEntries")
    case False
    then have z: "min (unat MaxEntries) (length cs) - i = 0" by auto
    have "ReadDir_loop cs MaxEntries i pFilename numFiles mem = (numFiles, mem)"
      by (subst ReadDir_loop.simps) (simp only: False if_False simp_thms)
    then show ?thesis by (simp add: z)
  next
    case True
    let ?n = "virtualName (cs ! i)"
    let ?m' = "(strcpy pFilename ?n mem)(pFilename + length ?n := CHR 0x00)"
    note ih = "1.IH" [OF True refl refl refl refl refl refl "1.prems"]
    have k: "min (unat MaxEntries) (length cs) - i = Suc (min (unat MaxEntries) (length cs) - (i + 1))"
      using True by auto
    have d: "drop i cs = cs ! i # drop (i + 1) cs"
      using True by (simp add: Cons_nth_drop_Suc)
    have nn: "CHR 0x00 \<notin> set ?n"
      using True "1.prems" by simp
    have m': "?m' = write_bytes pFilename (?n @ [CHR 0x00]) mem"
      by (simp add: strcpy_no_nul [OF nn] write_bytes_append)
    have "ReadDir_loop cs MaxEntries i pFilename numFiles mem =
        ReadDir_loop cs MaxEntries (i + 1) (pFilename + length ?n + 1) (numFiles + 1) ?m'"
      by (subst ReadDir_loop.simps) (simp only: True if_True Let_def simp_thms)
    also have "\<dots> = (numFiles + 1 + (min (unat MaxEntries) (length cs) - (i + 1)),
        write_bytes (pFilename + length ?n + 1)
          (concat (map (\<lambda>e. virtualName e @ [CHR 0x00])
             (take (min (unat MaxEntries) (length cs) - (i + 1)) (drop (i + 1) cs)))) ?m')"
      by (rule ih)
    also have "\<dots> = (numFiles + (min (unat MaxEntries) (length cs) - i),
      write_bytes pFilename
        (concat (map (\<lambda>e. virtualName e @ [CHR 0x00])
           (take (min (unat MaxEntries) (length cs) - i) (drop i cs)))) mem)"
      unfolding m' k d by (simp add: write_bytes_append)
    finally show ?thesis .
  qed
qed

lemma w_Read_U32_tmp: "Read_U32 w_mem 0x100 = 0x2F746D70"
  by (simp add: Read_U32_def w_mem_def read_bytes_def)

lemma w_sort_names: "sort [''b'', ''a''] = [''a'', ''b'']"
  by simp

text \<open>
  A valid path begins with \<open>/\<close>, so the word read at the address of a valid path, which
  is what the listing takes for its cap, is at least \<open>0x2F000000\<close>.
\<close>

lemma of_char_lt: "of_char c < (256 :: nat)"
proof -
  have "of_char c mod 256 = (of_char c :: nat)" by (rule of_char_mod_256)
  then show ?thesis by (metis mod_less_divisor zero_less_numeral)
qed
lemma read_bytes4: "read_bytes m p 4 = [m p, m (Suc p), m (Suc (Suc p)), m (Suc (Suc (Suc p)))]"
  by (simp add: read_bytes_def upt_conv_Cons)

lemma valid_path_first_byte:
  assumes "IsValidWiiPath (GetString mem a n)"
  shows "mem (unat a) = CHR ''/''"
proof -
  let ?bs = "read_bytes mem (unat a) (unat n)"
  have t: "take 1 (takeWhile (\<lambda>c. c \<noteq> CHR 0x00) ?bs) = ''/''"
    using assms by (simp add: IsValidWiiPath_def compare_eq_def GetString_def)
  then have ne: "?bs \<noteq> []" by auto
  then have "0 < unat n" by (simp add: read_bytes_def)
  then have h: "?bs = mem (unat a) # read_bytes mem (Suc (unat a)) (unat n - 1)"
    by (simp add: read_bytes_def upt_conv_Cons)
  show ?thesis
    using t unfolding h by (simp split: if_splits)
qed

lemma MaxEntries_of_valid_path:
  assumes "IsValidWiiPath (GetString mem a n)"
  shows "0x2F000000 \<le> Read_U32 mem a"
proof -
  let ?p = "unat a"
  let ?v = "((47 * 256 + of_char (mem (Suc ?p))) * 256 + of_char (mem (Suc (Suc ?p)))) * 256
            + of_char (mem (Suc (Suc (Suc ?p)))) :: nat"
  have f: "mem ?p = CHR ''/''"
    using assms by (rule valid_path_first_byte)
  have r: "Read_U32 mem a = word_of_nat ?v"
    by (simp add: Read_U32_def read_bytes4 f)
  have g: "((47 * 256 + x) * 256 + y) * 256 + z < 2 ^ 32"
    if "x < 256" "y < 256" "z < 256" for x y z :: nat
    using that by simp
  have b: "?v < 2 ^ 32"
    by (rule g) (rule of_char_lt)+
  have "unat (word_of_nat ?v :: 32 word) = ?v"
    using b by (simp add: unat_of_nat take_bit_eq_mod del: of_nat_add of_nat_mult)
  moreover have "788529152 \<le> ?v" by simp
  ultimately have "unat (0x2F000000 :: 32 word) \<le> unat (word_of_nat ?v :: 32 word)"
    by (simp del: of_nat_add of_nat_mult)
  then show ?thesis
    unfolding r by (simp only: word_le_nat_alt)
qed

lemma w_GetString_cap: "GetString w_mem_cap 0x100 5 = ''/tmp''"
  by (simp add: GetString_def w_mem_cap_def Write_U32_def be_bytes32_def w_mem_def read_bytes_def)

lemma w_Read_U32_cap_path: "Read_U32 w_mem_cap 0x100 = 0x2F746D70"
  by (simp add: Read_U32_def w_mem_cap_def Write_U32_def be_bytes32_def w_mem_def read_bytes_def)

lemma w_Read_U32_cap: "Read_U32 w_mem_cap 0x700 = 1"
  by (simp add: Read_U32_def w_mem_cap_def Write_U32_def be_bytes32_def w_mem_def read_bytes_def)

text \<open>
  The accounting of GETUSAGE on a path without a legacy prefix, the counts as 32-bit words.
\<close>

lemma getusage_accounting:
  assumes "in_vectors req = in0 # ins" and "io_vectors req = io0 # io1 # ios"
    and "GetString mem (address in0) (size_v in0) = relativepath"
    and "IsValidWiiPath relativepath"
    and "take 15 relativepath \<noteq> ''/title/00010001''"
    and "take 15 relativepath \<noteq> ''/title/00010005''"
  shows "IOCtlV env fs (req\<lparr>request_v := IOCTLV_GETUSAGE\<rparr>) mem =
     Some (GetFSReply env IPC_SUCCESS,
       (case lookup fs (split_path (HLE_IPC_BuildFilename env relativepath)) of
          Some (HDir es) \<Rightarrow>
            Write_U32 (of_nat (1 + descendants_list es)) (address io1)
              (Write_U32 (of_nat (file_bytes_list es div 16384)) (address io0) mem)
        | _ \<Rightarrow> Write_U32 0 (address io1) (Write_U32 0 (address io0) mem)))"
proof -
  have n1: "\<not> compare_eq relativepath 0 16 ''/title/00010001''"
    using assms(5) by (rule valid_not_legacy) simp
  have n2: "\<not> compare_eq relativepath 0 16 ''/title/00010005''"
    using assms(6) by (rule valid_not_legacy) simp
  show ?thesis
  proof (cases "lookup fs (split_path (HLE_IPC_BuildFilename env relativepath))")
    case None
    then show ?thesis
      using assms(1-4) by (simp add: IOCtlV_def File_IsDirectory_def is_dir_def)
  next
    case (Some n)
    show ?thesis
    proof (cases n)
      case (HFile b)
      then show ?thesis
        using Some assms(1-4) by (simp add: IOCtlV_def File_IsDirectory_def is_dir_def)
    next
      case (HDir es)
      then show ?thesis
        using Some assms(1-4) n1 n2 scan_facts(2) [of "HLE_IPC_BuildFilename env relativepath" es]
        by (simp add: IOCtlV_def File_IsDirectory_def is_dir_def File_ScanDirectoryTree_def
            Let_def ComputeTotalFileSize_sum' entries_size_sum' ucast_div_16k ucast_of_nat_64_32
            del: ComputeTotalFileSize.simps)
    qed
  qed
qed

lemma word_of_nat_mod_32: "(word_of_nat (n mod 2 ^ 32) :: 32 word) = word_of_nat n"
  by (simp add: word_of_nat_eq_iff take_bit_eq_mod)

text \<open>
  READ_DIR in listing mode on a valid guest path whose host path is a directory with the
  children \<open>es\<close>, none of whose unescaped names holds a NUL: the names buffer is
  zero-filled over its whole size, then the first \<open>k\<close> unescaped names in lexicographic
  order are written from its start, each followed by one NUL, and \<open>k\<close> is written to the
  second output. Here \<open>k\<close> is the smaller of the number of children and the word the code
  reads at the address of the first input vector.
\<close>

lemma read_dir_listing:
  assumes "in_vectors req = in0 # ins" and "io_vectors req = io0 # io1 # ios"
    and "GetString mem (address in0) (size_v in0) = relative_path"
    and "IsValidWiiPath relative_path"
    and "lookup fs (split_path (HLE_IPC_BuildFilename env relative_path)) = Some (HDir es)"
    and "names = sort (map (\<lambda>(n, c). UnescapeFileName env n) es)"
    and "\<forall>n \<in> set names. CHR 0x00 \<notin> set n"
    and "k = min (unat (Read_U32 mem (address in0))) (length es)"
  shows "IOCtlV env fs (req\<lparr>request_v := IOCTLV_READ_DIR\<rparr>) mem =
     Some (GetFSReply env IPC_SUCCESS,
           Write_U32 (of_nat k) (address io1)
             (write_bytes (unat (address io0))
                (concat (map (\<lambda>n. n @ [CHR 0x00]) (take k names)))
                (Memset (address io0) (CHR 0x00) (size_v io0) mem)))"
proof -
  let ?dir = "HLE_IPC_BuildFilename env relative_path"
  let ?cs = "sort_key virtualName
               (map (\<lambda>child. set_virtualName (UnescapeFileName env (virtualName child)) child)
                  (scan_list False ?dir es))"
  have "map virtualName (map (\<lambda>child. set_virtualName (UnescapeFileName env (virtualName child)) child)
                  (scan_list False ?dir es)) = map (UnescapeFileName env) (map virtualName (scan_list False ?dir es))"
    by (simp add: set_virtualName_def)
  then have vn: "map virtualName ?cs = names"
    unfolding map_sort_key assms(6) virtualName_scan_list
    by (simp add: case_prod_unfold comp_def)
  have len: "length ?cs = length es"
    using arg_cong [OF virtualName_scan_list [of False ?dir es], of length] by simp
  have nonul: "\<forall>e \<in> set ?cs. CHR 0x00 \<notin> set (virtualName e)"
  proof
    fix e assume "e \<in> set ?cs"
    then have "virtualName e \<in> set (map virtualName ?cs)" by (simp del: set_sort)
    then show "CHR 0x00 \<notin> set (virtualName e)" using assms(7) unfolding vn by simp
  qed
  have cat: "concat (map (\<lambda>e. virtualName e @ [CHR 0x00]) (take k ?cs))
             = concat (map (\<lambda>n. n @ [CHR 0x00]) (take k names))"
    unfolding vn [symmetric] by (simp add: take_map comp_def)
  have loop: "ReadDir_loop ?cs (Read_U32 mem (address in0)) 0 (unat (address io0)) 0
                (Memset (address io0) (CHR 0x00) (size_v io0) mem) =
     (k, write_bytes (unat (address io0)) (concat (map (\<lambda>n. n @ [CHR 0x00]) (take k names)))
           (Memset (address io0) (CHR 0x00) (size_v io0) mem))"
    using ReadDir_loop_closed [OF nonul, of "Read_U32 mem (address in0)" 0 "unat (address io0)" 0
        "Memset (address io0) (CHR 0x00) (size_v io0) mem"] cat
    by (simp only: len assms(8) drop_0 add_0 diff_zero)
  show ?thesis
    using assms(1-5) 
    by (simp add: IOCtlV_def File_Exists_def File_IsDirectory_def is_dir_def
        File_ScanDirectoryTree_def Let_def loop del: set_sort)
qed

section \<open>Lemmas about the snapshot stream\<close>

lemma length_stack_buf: "length (stack_buf junk) = 65536"
  by (simp only: stack_buf_def length_map length_upt diff_zero)

lemma ReadArray_length:
  "length buf = 65536 \<Longrightarrow> n \<le> 65536 \<Longrightarrow> length (fst (ReadArray n h buf)) = 65536"
  by (simp add: ReadArray_def Let_def)

lemma ReadArray_full:
  "n \<le> length h \<Longrightarrow> take n (fst (ReadArray n h buf)) = take n h"
  by (simp add: ReadArray_def Let_def)

lemma ReadArray_snd: "snd (ReadArray n h buf) = drop n h"
  by (simp add: ReadArray_def Let_def)

lemma save_file_loop_unfold:
  "save_file_loop count h buf p =
     (if 65536 < count
      then save_file_loop (count - 65536) (drop 65536 h) (fst (ReadArray 65536 h buf))
             (p @ [FArray (take 65536 (fst (ReadArray 65536 h buf)))])
      else p @ [FArray (take (unat count) (fst (ReadArray (unat count) h buf)))])"
  by (subst save_file_loop.simps) (simp add: Let_def case_prod_unfold ReadArray_snd)

lemma save_file_loop_acc:
  "save_file_loop count h buf p = p @ save_file_loop count h buf []"
proof (induction "unat count" arbitrary: count h buf p rule: less_induct)
  case less
  show ?case
  proof (cases "65536 < count")
    case True
    then have d: "unat (count - 65536) < unat count"
      by (simp add: word_less_nat_alt unat_sub word_le_nat_alt)
    let ?b = "fst (ReadArray 65536 h buf)"
    let ?c = "[FArray (take 65536 ?b)]"
    have "save_file_loop count h buf p = save_file_loop (count - 65536) (drop 65536 h) ?b (p @ ?c)"
      using True by (simp add: save_file_loop_unfold [of count])
    also have "\<dots> = (p @ ?c) @ save_file_loop (count - 65536) (drop 65536 h) ?b []"
      by (rule less [OF d])
    also have "\<dots> = p @ save_file_loop (count - 65536) (drop 65536 h) ?b ([] @ ?c)"
      using less [OF d, of "drop 65536 h" ?b ?c] by simp
    also have "\<dots> = p @ save_file_loop count h buf []"
      using True by (simp add: save_file_loop_unfold [of count])
    finally show ?thesis .
  next
    case False
    then show ?thesis
      by (simp add: save_file_loop_unfold [of count])
  qed
qed

lemma DoArray_read_FArray:
  "length bs = n \<Longrightarrow> DoArray_read n (FArray bs # s) = Some (bs, s)"
  by simp

lemma restore_file_loop_save:
  assumes "length buf = 65536"
  shows "\<exists>d. \<forall>s w. restore_file_loop count (save_file_loop count h buf [] @ s) w = Some (w @ d, s)"
  using assms
proof (induction "unat count" arbitrary: count h buf rule: less_induct)
  case less
  show ?case
  proof (cases "65536 < count")
    case True
    then have d: "unat (count - 65536) < unat count"
      by (simp add: word_less_nat_alt unat_sub word_le_nat_alt)
    let ?b = "fst (ReadArray 65536 h buf)"
    let ?c = "take 65536 ?b"
    have lb: "length ?b = 65536"
      using less.prems by (simp add: ReadArray_length)
    then have lc: "length ?c = 65536" by simp
    obtain d' where d': "\<And>s w. restore_file_loop (count - 65536)
          (save_file_loop (count - 65536) (drop 65536 h) ?b [] @ s) w = Some (w @ d', s)"
      using less.hyps [OF d lb] by blast
    have sv: "save_file_loop count h buf [] =
          FArray ?c # save_file_loop (count - 65536) (drop 65536 h) ?b []"
      using True save_file_loop_acc [of "count - 65536" "drop 65536 h" ?b "[FArray ?c]"]
      by (simp add: save_file_loop_unfold [of count])
    have "restore_file_loop count (save_file_loop count h buf [] @ s) w = Some (w @ (?c @ d'), s)"
      for s w
      using True lc d' [of s "w @ ?c"]
      by (subst restore_file_loop.simps) (simp add: sv)
    then show ?thesis by blast
  next
    case False
    let ?c = "take (unat count) (fst (ReadArray (unat count) h buf))"
    have le: "unat count \<le> 65536"
      using False by (simp add: word_less_nat_alt not_less)
    have lc: "length ?c = unat count"
      using less.prems le by (simp add: ReadArray_length)
    have sv: "save_file_loop count h buf [] = [FArray ?c]"
      using False by (simp add: save_file_loop_unfold [of count])
    have "restore_file_loop count (save_file_loop count h buf [] @ s) w = Some (w @ ?c, s)" for s w
      using False lc by (subst restore_file_loop.simps) (simp add: sv)
    then show ?thesis by blast
  qed
qed

lemma restore_file_loop_save_exact:
  assumes "unat count \<le> length h"
  shows "restore_file_loop count (save_file_loop count h buf [] @ s) w = Some (w @ take (unat count) h, s)"
  using assms
proof (induction "unat count" arbitrary: count h buf w rule: less_induct)
  case less
  show ?case
  proof (cases "65536 < count")
    case True
    then have d: "unat (count - 65536) < unat count"
      and u: "unat (count - 65536) = unat count - 65536" and g: "65536 < unat count"
      by (simp_all add: word_less_nat_alt unat_sub word_le_nat_alt)
    let ?b = "fst (ReadArray 65536 h buf)"
    let ?c = "take 65536 ?b"
    have c: "?c = take 65536 h"
      using less.prems g by (intro ReadArray_full) simp
    have lc: "length ?c = 65536"
      using less.prems g by (simp add: c)
    have rest: "unat (count - 65536) \<le> length (drop 65536 h)"
      using less.prems u by simp
    have sv: "save_file_loop count h buf [] =
          FArray ?c # save_file_loop (count - 65536) (drop 65536 h) ?b []"
      using True save_file_loop_acc [of "count - 65536" "drop 65536 h" ?b "[FArray ?c]"]
      by (simp add: save_file_loop_unfold [of count])
    have tk: "take 65536 h @ take (unat count - 65536) (drop 65536 h) = take (unat count) h"
      using g by (metis le_add_diff_inverse less_imp_le_nat take_add)
    show ?thesis
      using True lc less.hyps [OF d rest, of ?b "w @ ?c"]
      by (subst restore_file_loop.simps) (simp add: sv u c tk)
  next
    case False
    let ?c = "take (unat count) (fst (ReadArray (unat count) h buf))"
    have c: "?c = take (unat count) h"
      using less.prems by (intro ReadArray_full)
    have lc: "length ?c = unat count"
      using less.prems by (simp add: c)
    have sv: "save_file_loop count h buf [] = [FArray ?c]"
      using False by (simp add: save_file_loop_unfold [of count])
    show ?thesis
      using False lc by (subst restore_file_loop.simps) (simp add: sv c)
  qed
qed


lemma save_loop_unfold:
  "save_loop fs Path junk (entry # todo) p =
     save_loop fs Path junk (if isDirectory entry then todo @ children entry else todo)
       (p @ entry_fields fs Path junk entry)"
  by (subst save_loop.simps)
    (simp add: Let_def entry_fields_def save_file_loop_acc [of _ _ _ "_ @ _"])

lemma save_loop_Nil: "save_loop fs Path junk [] p = p"
  by (subst save_loop.simps) (rule refl)

lemma size_list_step:
  "size_list size (if isDirectory entry then todo @ children entry else todo)
     < size_list size (entry # todo)"
  by (cases entry) simp

lemma save_loop_acc:
  "save_loop fs Path junk todo p = p @ save_loop fs Path junk todo []"
proof (induction "size_list size todo" arbitrary: todo p rule: less_induct)
  case less
  show ?case
  proof (cases todo)
    case Nil
    then show ?thesis by (simp add: save_loop_Nil)
  next
    case (Cons entry rest)
    let ?next = "if isDirectory entry then rest @ children entry else rest"
    let ?f = "entry_fields fs Path junk entry"
    have d: "size_list size ?next < size_list size todo"
      unfolding Cons by (rule size_list_step)
    have "save_loop fs Path junk todo p = save_loop fs Path junk ?next (p @ ?f)"
      unfolding Cons by (rule save_loop_unfold)
    also have "\<dots> = (p @ ?f) @ save_loop fs Path junk ?next []"
      by (rule less [OF d])
    also have "\<dots> = p @ save_loop fs Path junk ?next ([] @ ?f)"
      using less [OF d, of ?f] by simp
    also have "\<dots> = p @ save_loop fs Path junk todo []"
      unfolding Cons by (simp only: save_loop_unfold [symmetric])
    finally show ?thesis .
  qed
qed

lemma save_loop_Cons:
  "save_loop fs Path junk (entry # todo) [] =
     entry_fields fs Path junk entry @
     save_loop fs Path junk (if isDirectory entry then todo @ children entry else todo) []"
  using save_loop_acc [of fs Path junk _ "entry_fields fs Path junk entry"]
  by (simp add: save_loop_unfold)

lemma stream_tags_entry:
  "stream_tags (entry_fields fs Path junk entry @ s) =
     map_option (Cons (if isDirectory entry then CHR ''d'' else CHR ''f'')) (stream_tags s)"
proof (cases "isDirectory entry")
  case True
  then show ?thesis
    by (subst stream_tags.simps) (simp add: entry_fields_def)
next
  case False
  obtain d where d: "\<And>s w. restore_file_loop (ucast (size_e entry))
      (save_file_loop (ucast (size_e entry)) (IOFile_rb fs (physicalName entry)) (stack_buf junk) [] @ s) w
      = Some (w @ d, s)"
    using restore_file_loop_save [OF length_stack_buf] by blast
  show ?thesis
    using False d [of s "[]"] by (subst stream_tags.simps) (simp add: entry_fields_def)
qed

lemma stream_tags_save_loop:
  "\<exists>tags. CHR 0x00 \<notin> set tags \<and>
     (\<forall>s. stream_tags (save_loop fs Path junk todo [] @ s) = map_option (append tags) (stream_tags s))"
proof (induction "size_list size todo" arbitrary: todo rule: less_induct)
  case less
  show ?case
  proof (cases todo)
    case Nil
    have e: "map_option (append []) x = x" for x :: "char list option"
      by (cases x) simp_all
    have "\<forall>s. stream_tags (save_loop fs Path junk todo [] @ s) = map_option (append []) (stream_tags s)"
      unfolding Nil by (simp add: save_loop_Nil e)
    then show ?thesis by (intro exI [of _ "[]"]) simp
  next
    case (Cons entry rest)
    let ?next = "if isDirectory entry then rest @ children entry else rest"
    let ?t = "if isDirectory entry then CHR ''d'' else CHR ''f''"
    have d: "size_list size ?next < size_list size todo"
      unfolding Cons by (rule size_list_step)
    from less [OF d] obtain tags where tags: "CHR 0x00 \<notin> set tags"
      "\<And>s. stream_tags (save_loop fs Path junk ?next [] @ s) = map_option (append tags) (stream_tags s)"
      by (elim exE conjE) (rule that, assumption, erule spec)
    have c: "map_option (Cons ?t) (map_option (append tags) x) = map_option (append (?t # tags)) x"
      for x :: "char list option"
      by (cases x) simp_all
    have "stream_tags (save_loop fs Path junk todo [] @ s) = map_option (append (?t # tags)) (stream_tags s)"
      for s
      unfolding Cons save_loop_Cons append_assoc stream_tags_entry tags(2) c ..
    moreover have "CHR 0x00 \<notin> set (?t # tags)"
      using tags(1) by simp
    ultimately show ?thesis
      by (intro exI [of _ "?t # tags"] conjI allI)
  qed
qed

lemma restore_loop_entry:
  "\<exists>g. \<forall>s F. restore_loop Path (entry_fields fs Path junk entry @ s) F = restore_loop Path s (g F)"
proof (cases "isDirectory entry")
  case True
  have "restore_loop Path (entry_fields fs Path junk entry @ s) F =
        restore_loop Path s
          (File_CreateDir (Path @ DIR_SEP @ drop (length Path + 1) (physicalName entry)) F)" for s F
    using True by (subst restore_loop.simps) (simp add: entry_fields_def)
  then show ?thesis by blast
next
  case False
  obtain d where d: "\<And>s w. restore_file_loop (ucast (size_e entry))
      (save_file_loop (ucast (size_e entry)) (IOFile_rb fs (physicalName entry)) (stack_buf junk) [] @ s) w
      = Some (w @ d, s)"
    using restore_file_loop_save [OF length_stack_buf] by blast
  have "restore_loop Path (entry_fields fs Path junk entry @ s) F =
        restore_loop Path s
          (IOFile_wb (Path @ DIR_SEP @ drop (length Path + 1) (physicalName entry)) d F)" for s F
    using False d [of s "[]"] by (subst restore_loop.simps) (simp add: entry_fields_def)
  then show ?thesis by blast
qed

lemma restore_loop_save_loop:
  "\<exists>F'. restore_loop Path (save_loop fs Path junk todo [] @ FChar (CHR 0x00) # rest) F = Some (rest, F')"
proof (induction "size_list size todo" arbitrary: todo F rule: less_induct)
  case less
  show ?case
  proof (cases todo)
    case Nil
    show ?thesis
      unfolding Nil by (subst restore_loop.simps) (simp add: save_loop_Nil)
  next
    case (Cons entry rest')
    let ?next = "if isDirectory entry then rest' @ children entry else rest'"
    have d: "size_list size ?next < size_list size todo"
      unfolding Cons by (rule size_list_step)
    obtain g where g: "\<And>s F. restore_loop Path (entry_fields fs Path junk entry @ s) F
        = restore_loop Path s (g F)"
      using restore_loop_entry by blast
    show ?thesis
      unfolding Cons save_loop_Cons using less [OF d, of "g F"] by (simp add: g)
  qed
qed

lemma DoState_write:
  "mode p \<noteq> MODE_READ \<Longrightarrow>
   DoState env junk p fs = Some (p\<lparr>stream := stream p @ tmp_stream env junk fs\<rparr>, fs)"
  using save_loop_acc [of fs _ junk _ "stream p"]
  by (simp add: DoState_def tmp_stream_def Let_def)

lemma w_tmp_stream: "tmp_stream w_env w_junk w_fs = w_stream"
  by (simp add: tmp_stream_def w_env_def w_fs_def w_stream_def File_ScanDirectoryTree_def
      split_path_def DIR_SEP_def Let_def save_loop_unfold save_loop_Nil entry_fields_def
      IOFile_rb_def save_file_loop_unfold ReadArray_def)

lemma w_stream_tags: "stream_tags w_stream = Some [CHR ''f'', CHR ''d'', CHR ''f'', CHR 0x00]"
  by (simp add: w_stream_def stream_tags.simps restore_file_loop.simps)

section \<open>Lemmas about the round trip\<close>

lemma stat_Nil_leaf: "stat (HFile b) (c # q) = None" "stat (HDir []) (c # q) = None"
  by (simp_all add: stat_def)

lemma is_dir_stat: "is_dir (lookup F p) \<longleftrightarrow> stat F p = Some KDir"
  by (auto simp: is_dir_def stat_def split: option.splits hnode.splits)

lemma lookup_append:
  "lookup F (p @ q) = (case lookup F p of None \<Rightarrow> None | Some n \<Rightarrow> lookup n q)"
proof (induction p arbitrary: F)
  case Nil
  then show ?case by simp
next
  case (Cons c p)
  then show ?case by (cases F) (simp_all split: option.splits)
qed

lemma stat_put_at:
  "p \<noteq> [] \<Longrightarrow> stat F (butlast p) = Some KDir \<Longrightarrow>
   stat (put_at p new F) q = (if prefix p q then stat new (drop (length p) q) else stat F q)"
proof (induction p arbitrary: F q)
  case Nil
  then show ?case by simp
next
  case (Cons c cs)
  show ?case
  proof (cases cs)
    case Nil
    then obtain es where F: "F = HDir es"
      using Cons.prems by (cases F) (simp_all add: stat_def)
    show ?thesis
    proof (cases q)
      case Nil
      then show ?thesis using F \<open>cs = []\<close> by (simp add: stat_def)
    next
      case (Cons c' q')
      then show ?thesis using F \<open>cs = []\<close> by (simp add: stat_def update_conv')
    qed
  next
    case (Cons d ds)
    then have bl: "butlast (c # cs) = c # butlast cs" by simp
    obtain es n where F: "F = HDir es" and n: "map_of es c = Some n"
      and sn: "stat n (butlast cs) = Some KDir"
      using Cons.prems(2) unfolding bl
      by (cases F) (auto simp: stat_def split: option.splits)
    have ih: "stat (put_at cs new n) q' =
        (if prefix cs q' then stat new (drop (length cs) q') else stat n q')" for q'
      using Cons.IH [OF _ sn] Cons by simp
    show ?thesis
    proof (cases q)
      case Nil
      then show ?thesis using F n Cons by (simp add: stat_def)
    next
      case (Cons c' q')
      have "stat (put_at (c # cs) new F) (c' # q') =
            (if c' = c then stat (put_at cs new n) q' else stat F (c' # q'))"
        using F n \<open>cs = d # ds\<close> by (simp add: stat_def update_conv')
      then show ?thesis
        using F n ih [of q'] Cons by (auto simp: stat_def)
    qed
  qed
qed

lemma stat_remove_at:
  "p \<noteq> [] \<Longrightarrow> stat (remove_at p F) q = (if prefix p q then None else stat F q)"
proof (induction p arbitrary: F q)
  case Nil
  then show ?case by simp
next
  case (Cons c cs)
  show ?case
  proof (cases F)
    case (HFile b)
    then show ?thesis by (cases q; cases cs) (auto simp: stat_def)
  next
    case (HDir es)
    show ?thesis
    proof (cases cs)
      case Nil
      then show ?thesis using HDir
        by (cases q) (auto simp: stat_def delete_conv')
    next
      case (Cons d ds)
      show ?thesis
      proof (cases "map_of es c")
        case None
        then show ?thesis using HDir Cons
          by (cases q) (auto simp: stat_def)
      next
        case (Some n)
        have ih: "stat (remove_at cs n) q' = (if prefix cs q' then None else stat n q')" for q'
          using Cons.IH Cons by simp
        show ?thesis
        proof (cases q)
          case Nil
          then show ?thesis using HDir Some Cons by (simp add: stat_def)
        next
          case (Cons c' q')
          have "stat (remove_at (c # cs) F) (c' # q') =
                (if c' = c then stat (remove_at cs n) q' else stat F (c' # q'))"
            using HDir Some \<open>cs = d # ds\<close> by (simp add: stat_def update_conv')
          then show ?thesis
            using HDir Some ih [of q'] Cons by (auto simp: stat_def)
        qed
      qed
    qed
  qed
qed

lemma split_acc_plain:
  "CHR ''/'' \<notin> set a \<Longrightarrow> split_acc (a @ rest) cur = split_acc rest (cur @ a)"
  by (induction a arbitrary: cur) auto

lemma split_acc_sep:
  "split_acc (CHR ''/'' # rest) cur = (if cur = [] then [] else [cur]) @ split_acc rest []"
  by simp

lemma split_acc_append:
  "split_acc (a @ CHR ''/'' # b) cur = split_acc a cur @ split_acc b []"
  by (induction a arbitrary: cur) auto

lemma split_path_sep:
  "split_path (a @ DIR_SEP @ b) = split_path a @ split_path b"
  by (simp add: split_path_def DIR_SEP_def split_acc_append)

lemma split_path_name:
  "c \<noteq> [] \<Longrightarrow> CHR ''/'' \<notin> set c \<Longrightarrow> split_path c = [c]"
  using split_acc_plain [of c "[]" "[]"] by (simp add: split_path_def)

lemma split_path_join: "names_ok r \<Longrightarrow> split_path (join r) = r"
proof (induction r rule: join.induct)
  case 1
  then show ?case by (simp add: split_path_def)
next
  case (2 c)
  then show ?case by (simp add: names_ok_def split_path_name)
next
  case (3 c d ds)
  then show ?case
    by (simp add: names_ok_def split_path_sep split_path_name)
qed

lemma join_snoc: "r \<noteq> [] \<Longrightarrow> join (r @ [c]) = join r @ DIR_SEP @ c"
  by (induction r rule: join.induct) simp_all

lemma split_path_tmp: "split_path (root @ ''/tmp'') = split_path root @ [''tmp'']"
  using split_path_sep [of root "''tmp''"] by (simp add: DIR_SEP_def split_path_name)

lemma unat_of_nat_le: "unat (of_nat k :: u32) \<le> k"
  by (simp add: unat_of_nat)

lemma rec_fields_simps:
  "rec_fields junk (r, HDir cs) = [FChar (CHR ''d''), FString (join r)]"
  "rec_fields junk (r, HFile b) =
     [FChar (CHR ''f''), FString (join r), FU32 (of_nat (length b))] @
     save_file_loop (of_nat (length b)) b (stack_buf junk) []"
  by (simp_all add: rec_fields_def)

lemma apply_item_simps:
  "apply_item Path (r, HDir cs) F = File_CreateDir (Path @ DIR_SEP @ join r) F"
  "apply_item Path (r, HFile b) F =
     IOFile_wb (Path @ DIR_SEP @ join r) (take (unat (of_nat (length b) :: u32)) b) F"
  by (simp_all add: apply_item_def)

lemma restore_loop_records:
  "restore_loop Path (concat (map (rec_fields junk) xs) @ FChar (CHR 0x00) # rest) F =
     Some (rest, fold (apply_item Path) xs F)"
proof (induction xs arbitrary: F)
  case Nil
  show ?case by (subst restore_loop.simps) simp
next
  case (Cons it xs)
  obtain r n where it: "it = (r, n)" by (cases it)
  show ?case
  proof (cases n)
    case (HDir cs)
    show ?thesis
      unfolding it HDir
      by (subst restore_loop.simps) (simp add: rec_fields_simps apply_item_simps Cons.IH)
  next
    case (HFile b)
    have rf: "restore_file_loop (of_nat (length b))
        (save_file_loop (of_nat (length b)) b (stack_buf junk) [] @ s) [] =
        Some (take (unat (of_nat (length b) :: u32)) b, s)" for s
      using restore_file_loop_save_exact [where count = "of_nat (length b)" and h = b
          and buf = "stack_buf junk" and s = s and w = "[]", OF unat_of_nat_le]
      by simp
    show ?thesis
      unfolding it HFile
      by (subst restore_loop.simps) (simp add: rec_fields_simps apply_item_simps rf Cons.IH)
  qed
qed

lemma wf_list_mem:
  "wf_list es \<Longrightarrow> (n, c) \<in> set es \<Longrightarrow> n \<noteq> [] \<and> CHR ''/'' \<notin> set n \<and> wf_node c"
  by (induction es) auto

lemma files_small_list_mem:
  "files_small_list es \<Longrightarrow> (n, c) \<in> set es \<Longrightarrow> files_small c"
  by (induction es) auto

lemma entry_fields_matches:
  assumes "matches fs Path e (r, n)"
  shows "entry_fields fs Path junk e = rec_fields junk (r, n)"
proof (cases n)
  case (HDir cs)
  have e: "e = FSTEntry True (entries_size (scan_list True (Path @ DIR_SEP @ join r) cs))
                 (Path @ DIR_SEP @ join r) (virtualName e) (scan_list True (Path @ DIR_SEP @ join r) cs)"
    using assms HDir by (simp add: matches_def Let_def)
  have "isDirectory e = True" "physicalName e = Path @ DIR_SEP @ join r"
    by (subst e, simp)+
  then show ?thesis
    using HDir by (simp add: entry_fields_def rec_fields_simps DIR_SEP_def)
next
  case (HFile b)
  have e: "e = FSTEntry False (of_nat (length b)) (Path @ DIR_SEP @ join r) (virtualName e) []"
    using assms HFile by (simp add: matches_def)
  have l: "lookup fs (split_path (Path @ DIR_SEP @ join r)) = Some (HFile b)"
    using assms HFile by (simp add: matches_def split_path_sep split_path_join)
  have "isDirectory e = False" "size_e e = of_nat (length b)"
    "physicalName e = Path @ DIR_SEP @ join r"
    by (subst e, simp)+
  then show ?thesis
    using HFile l
    by (simp add: entry_fields_def rec_fields_simps IOFile_rb_def ucast_of_nat_64_32 DIR_SEP_def)
qed

lemma matches_child:
  assumes "matches fs Path e (r, HDir cs)" and "(name, c) \<in> set cs"
  shows "matches fs Path (scan_node True ((Path @ DIR_SEP @ join r) @ DIR_SEP @ name) name c)
           (r @ [name], c)"
proof -
  have r: "r \<noteq> []" "names_ok r" and wf: "distinct (map fst cs)" "wf_list cs"
    and l: "lookup fs (split_path Path @ r) = Some (HDir cs)"
    using assms(1) by (simp_all add: matches_def)
  have nm: "name \<noteq> []" "CHR ''/'' \<notin> set name" "wf_node c"
    using wf_list_mem [OF wf(2) assms(2)] by simp_all
  have m: "map_of cs name = Some c"
    using wf(1) assms(2) by (rule map_of_is_SomeI)
  have "lookup fs ((split_path Path @ r) @ [name]) = Some c"
    using m by (subst lookup_append) (simp add: l)
  then show ?thesis
    using r nm by (simp add: matches_def names_ok_def join_snoc virtualName_scan_node)
qed

lemma matches_children_aux:
  assumes "matches fs Path e (r, HDir cs)" and "set cs' \<subseteq> set cs"
  shows "list_all2 (matches fs Path) (scan_list True (Path @ DIR_SEP @ join r) cs')
           (map (\<lambda>(name, c). (r @ [name], c)) cs')"
  using assms(2)
proof (induction cs')
  case Nil
  then show ?case by simp
next
  case (Cons a cs')
  obtain name c where a: "a = (name, c)" by (cases a)
  have "(name, c) \<in> set cs" using Cons.prems a by simp
  then show ?case
    using Cons a matches_child [OF assms(1)] by simp
qed

lemma matches_children:
  assumes "matches fs Path e (r, n)"
  shows "list_all2 (matches fs Path) (if isDirectory e then children e else []) (child_items r n)"
proof (cases n)
  case (HFile b)
  have e: "e = FSTEntry False (of_nat (length b)) (Path @ DIR_SEP @ join r) (virtualName e) []"
    using assms HFile by (simp add: matches_def)
  have "isDirectory e = False" by (subst e) simp
  then show ?thesis using HFile by (simp add: child_items_def)
next
  case (HDir cs)
  have e: "e = FSTEntry True (entries_size (scan_list True (Path @ DIR_SEP @ join r) cs))
                 (Path @ DIR_SEP @ join r) (virtualName e) (scan_list True (Path @ DIR_SEP @ join r) cs)"
    using assms HDir by (simp add: matches_def Let_def)
  have "isDirectory e = True" "children e = scan_list True (Path @ DIR_SEP @ join r) cs"
    by (subst e, simp)+
  then show ?thesis
    using HDir matches_children_aux [OF assms [unfolded HDir] subset_refl]
    by (simp add: child_items_def)
qed

lemma save_loop_records:
  "list_all2 (matches fs Path) todo items \<Longrightarrow>
   save_loop fs Path junk todo [] = concat (map (rec_fields junk) (bfs items))"
proof (induction items arbitrary: todo rule: bfs.induct)
  case 1
  then show ?case by (simp add: save_loop_Nil)
next
  case (2 r n q)
  then obtain e todo' where todo: "todo = e # todo'" and m: "matches fs Path e (r, n)"
    and rest: "list_all2 (matches fs Path) todo' q"
    by (auto simp: list_all2_Cons2)
  let ?next = "if isDirectory e then todo' @ children e else todo'"
  have "?next = todo' @ (if isDirectory e then children e else [])" by simp
  then have "list_all2 (matches fs Path) ?next (q @ child_items r n)"
    using rest matches_children [OF m] by (simp only: list_all2_appendI)
  then have "save_loop fs Path junk ?next [] = concat (map (rec_fields junk) (bfs (q @ child_items r n)))"
    by (rule "2.IH")
  then show ?case
    unfolding todo save_loop_Cons entry_fields_matches [OF m] by simp
qed

lemma antichain_step:
  assumes "antichain (r # rs)" and "distinct ns"
  shows "antichain (rs @ map (\<lambda>x. r @ [x]) ns)"
proof -
  have d: "distinct rs" "r \<notin> set rs"
    and a: "\<And>a b. a \<in> set (r # rs) \<Longrightarrow> b \<in> set (r # rs) \<Longrightarrow> prefix a b \<Longrightarrow> a = b"
    using assms(1) by (auto simp: antichain_def)
  have not_under: "\<not> prefix r r'" if "r' \<in> set rs" for r'
    using a [of r r'] that d(2) by auto
  have inj: "inj_on (\<lambda>x. r @ [x]) (set ns)"
    by (rule inj_onI) simp
  have dm: "distinct (map (\<lambda>x. r @ [x]) ns)"
    using assms(2) inj by (simp add: distinct_map)
  have disj: "set rs \<inter> set (map (\<lambda>x. r @ [x]) ns) = {}"
  proof (rule ccontr)
    assume "set rs \<inter> set (map (\<lambda>x. r @ [x]) ns) \<noteq> {}"
    then obtain x where "r @ [x] \<in> set rs" by auto
    then show False using not_under [of "r @ [x]"] by simp
  qed
  have anti: "a' = b'" if ma: "a' \<in> set (rs @ map (\<lambda>x. r @ [x]) ns)"
    and mb: "b' \<in> set (rs @ map (\<lambda>x. r @ [x]) ns)" and p: "prefix a' b'" for a' b'
  proof -
    consider (oo) "a' \<in> set rs" "b' \<in> set rs"
      | (on) y where "a' \<in> set rs" "b' = r @ [y]"
      | (no) x where "a' = r @ [x]" "b' \<in> set rs"
      | (nn) x y where "a' = r @ [x]" "b' = r @ [y]"
      using ma mb by auto
    then show ?thesis
    proof cases
      case oo
      then show ?thesis using a [of a' b'] p by simp
    next
      case on
      then have "a' = r @ [y] \<or> prefix a' r"
        using p by (simp add: prefix_snoc)
      then show ?thesis
      proof
        assume "a' = r @ [y]" then show ?thesis using on by simp
      next
        assume "prefix a' r"
        then have "a' = r" using a [of a' r] on(1) by simp
        then show ?thesis using on(1) d(2) by simp
      qed
    next
      case no
      then have "prefix r b'"
        using p by (metis append_prefixD)
      then show ?thesis using not_under [OF no(2)] by simp
    next
      case nn
      then show ?thesis using p by simp
    qed
  qed
  show ?thesis
    unfolding antichain_def using d(1) dm disj anti by (simp only: distinct_append) blast
qed

lemma stat_None: "stat F p = None \<longleftrightarrow> lookup F p = None"
  by (simp add: stat_def)

lemma strict_prefix_drop: "prefix a p \<Longrightarrow> p \<noteq> a \<Longrightarrow> \<exists>x s. drop (length a) p = x # s"
proof -
  assume "prefix a p" and "p \<noteq> a"
  then obtain zs where "p = a @ zs" and "zs \<noteq> []"
    by (auto simp: prefix_def)
  then show ?thesis by (cases zs) simp_all
qed

lemma take_small: "length b < 2 ^ 32 \<Longrightarrow> take (unat (of_nat (length b) :: u32)) b = b"
  by (simp add: unat_of_nat)

lemma stat_apply_item:
  assumes "item_ok fs (split_path Path) F (r, n)"
  shows "stat (apply_item Path (r, n) F) p =
     (if p = split_path Path @ r then Some (kind_of n)
      else if prefix (split_path Path @ r) p then None else stat F p)"
proof -
  let ?P = "split_path Path @ r"
  have r: "r \<noteq> []" "names_ok r" and sm: "files_small n"
    and par: "stat F (butlast ?P) = Some KDir" and free: "lookup F ?P = None"
    using assms by (simp_all add: item_ok_def stat_None)
  have sp: "split_path (Path @ DIR_SEP @ join r) = ?P"
    using r(2) by (simp add: split_path_sep split_path_join)
  have ne: "?P \<noteq> []" using r(1) by simp
  have leaf: "stat (put_at ?P new F) p =
      (if p = ?P then Some (kind_of new) else if prefix ?P p then None else stat F p)"
    if "new = HDir [] \<or> (\<exists>b. new = HFile b)" for new
  proof (cases "prefix ?P p \<and> p \<noteq> ?P")
    case True
    then obtain x s where "drop (length ?P) p = x # s"
      using strict_prefix_drop by blast
    then show ?thesis
      using True that stat_put_at [OF ne par, of new p] by (auto simp: stat_Nil_leaf)
  next
    case False
    then show ?thesis
      using stat_put_at [OF ne par, of new p] by (auto simp: stat_def)
  qed
  show ?thesis
  proof (cases n)
    case (HDir cs)
    have "apply_item Path (r, n) F = put_at ?P (HDir []) F"
      using free by (simp add: HDir apply_item_simps File_CreateDir_def sp)
    then show ?thesis using leaf [of "HDir []"] HDir by simp
  next
    case (HFile b)
    have "apply_item Path (r, n) F = put_at ?P (HFile b) F"
      using free sm by (simp add: HFile apply_item_simps IOFile_wb_def sp is_dir_def take_small)
    then show ?thesis using leaf [of "HFile b"] HFile by simp
  qed
qed

lemma map_fst_child_items:
  "map fst (child_items r (HDir cs)) = map (\<lambda>x. r @ [x]) (map fst cs)"
  "child_items r (HFile b) = []"
  by (simp_all add: child_items_def case_prod_unfold comp_def)

lemma antichain_tail: "antichain (r # rs) \<Longrightarrow> antichain rs"
  using antichain_step [of r rs "[]"] by simp

lemma stat_parent:
  assumes "lookup F p = Some n" and "p \<noteq> []"
  shows "stat F (butlast p) = Some KDir"
proof -
  have "lookup F (butlast p @ [last p]) = Some n"
    using assms by simp
  then obtain m where m: "lookup F (butlast p) = Some m" and c: "lookup m [last p] = Some n"
    unfolding lookup_append by (auto split: option.splits)
  show ?thesis
    using m c by (cases m) (simp_all add: stat_def)
qed

lemma item_ok_child:
  assumes "lookup fs (T @ r) = Some (HDir cs)" and "wf_node (HDir cs)" and "files_small (HDir cs)"
    and "names_ok r" and "(name, c) \<in> set cs"
    and "stat F1 (T @ r) = Some KDir" and "stat F1 (T @ r @ [name]) = None"
  shows "item_ok fs T F1 (r @ [name], c)"
proof -
  have wf: "distinct (map fst cs)" "wf_list cs" and sm: "files_small_list cs"
    using assms(2,3) by simp_all
  have nm: "name \<noteq> []" "CHR ''/'' \<notin> set name" "wf_node c"
    using wf_list_mem [OF wf(2) assms(5)] by simp_all
  have m: "map_of cs name = Some c"
    using wf(1) assms(5) by (rule map_of_is_SomeI)
  have l: "lookup fs (T @ r @ [name]) = Some c"
    using m lookup_append [of fs "T @ r" "[name]"] by (simp add: assms(1))
  show ?thesis
    using nm assms(4,6,7) l files_small_list_mem [OF sm assms(5)]
    by (simp add: item_ok_def names_ok_def butlast_append)
qed

lemma inv_step:
  assumes "inv fs (split_path Path) F ((r, n) # q)"
  shows "inv fs (split_path Path) (apply_item Path (r, n) F) (q @ child_items r n)"
proof -
  let ?T = "split_path Path"
  let ?F1 = "apply_item Path (r, n) F"
  have head: "item_ok fs ?T F (r, n)" and tl: "list_all (item_ok fs ?T F) q"
    and ac: "antichain (r # map fst q)"
    using assms by (simp_all add: inv_def)
  note st = stat_apply_item [OF head]
  have r: "r \<noteq> []" "names_ok r" "wf_node n" "files_small n" "lookup fs (?T @ r) = Some n"
    using head by (simp_all add: item_ok_def)
  have not_under: "\<not> prefix r r'" if "r' \<in> set (map fst q)" for r'
    using ac that unfolding antichain_def by (metis distinct.simps(2) list.set_intros(1,2))
  have old: "item_ok fs ?T ?F1 it" if "it \<in> set q" for it
  proof -
    obtain r' n' where it: "it = (r', n')" by (cases it)
    have ok: "item_ok fs ?T F (r', n')"
      using tl that it by (simp add: list_all_iff)
    have "r' \<in> set (map fst q)" using that it by force
    then have np: "\<not> prefix (?T @ r) (?T @ r')"
      using not_under by simp
    have nb: "\<not> prefix (?T @ r) (butlast (?T @ r'))"
      using np by (meson prefix_order.trans prefixeq_butlast)
    have "stat ?F1 (?T @ r') = stat F (?T @ r')"
      using np by (auto simp: st)
    moreover have "stat ?F1 (butlast (?T @ r')) = stat F (butlast (?T @ r'))"
      using nb by (auto simp: st)
    ultimately show ?thesis
      using ok unfolding it item_ok_def by simp
  qed
  have new: "item_ok fs ?T ?F1 it" if itm: "it \<in> set (child_items r n)" for it
  proof (cases n)
    case (HFile b)
    then show ?thesis using itm by (simp add: child_items_def)
  next
    case (HDir cs)
    then obtain name c where it: "it = (r @ [name], c)" and mem: "(name, c) \<in> set cs"
      using itm by (auto simp: child_items_def)
    have a: "stat ?F1 (?T @ r) = Some KDir"
      using st [of "?T @ r"] HDir by simp
    have b: "stat ?F1 (?T @ r @ [name]) = None"
      using st [of "?T @ r @ [name]"] by simp
    show ?thesis
      unfolding it
      using item_ok_child [OF r(5) [unfolded HDir] r(3) [unfolded HDir] r(4) [unfolded HDir] r(2)
          mem a b] .
  qed
  have anti: "antichain (map fst (q @ child_items r n))"
  proof (cases n)
    case (HFile b)
    then show ?thesis using antichain_tail [OF ac] by (simp add: map_fst_child_items)
  next
    case (HDir cs)
    have "distinct (map fst cs)" using r(3) HDir by simp
    then show ?thesis
      using antichain_step [OF ac, of "map fst cs"] by (simp add: HDir map_fst_child_items)
  qed
  show ?thesis
    unfolding inv_def using old new anti by (auto simp: list_all_iff)
qed

lemma bfs_restore:
  assumes "inv fs (split_path Path) F items"
  shows "stat (fold (apply_item Path) (bfs items) F) p =
     (if \<exists>it \<in> set items. prefix (split_path Path @ fst it) p then stat fs p else stat F p)"
  using assms
proof (induction items arbitrary: F rule: bfs.induct)
  case 1
  then show ?case by simp
next
  case (2 r n q)
  let ?T = "split_path Path"
  let ?F1 = "apply_item Path (r, n) F"
  have head: "item_ok fs ?T F (r, n)"
    using "2.prems" by (simp add: inv_def)
  note st = stat_apply_item [OF head]
  have l: "lookup fs (?T @ r) = Some n"
    using head by (simp add: item_ok_def)
  have ih: "stat (fold (apply_item Path) (bfs (q @ child_items r n)) ?F1) p =
     (if \<exists>it \<in> set (q @ child_items r n). prefix (?T @ fst it) p then stat fs p else stat ?F1 p)"
    using "2.IH" [OF inv_step [OF "2.prems"]] .
  have child_under: "prefix (?T @ r) p"
    if itm: "it \<in> set (child_items r n)" and pr: "prefix (?T @ fst it) p" for it
  proof -
    obtain x where "fst it = r @ [x]"
      using itm by (cases n) (auto simp: child_items_def)
    then show ?thesis
      using pr by (metis append_assoc append_prefixD)
  qed
  have uncovered: "stat ?F1 p = stat fs p"
    if u: "prefix (?T @ r) p" and nc: "\<not> (\<exists>it \<in> set (child_items r n). prefix (?T @ fst it) p)"
  proof (cases "p = ?T @ r")
    case True
    have "stat ?F1 p = Some (kind_of n)"
      using st [of p] True by simp
    moreover have "stat fs p = Some (kind_of n)"
      using l True by (simp add: stat_def)
    ultimately show ?thesis by simp
  next
    case False
    then obtain x s where d: "drop (length (?T @ r)) p = x # s"
      using strict_prefix_drop [OF u] by blast
    have p: "p = (?T @ r) @ x # s"
      using u d by (metis append_take_drop_id prefix_def append_eq_conv_conj)
    have la: "lookup fs p = lookup n (x # s)"
      unfolding p using lookup_append [of fs "?T @ r" "x # s"] l by simp
    have "stat fs p = None"
    proof (cases n)
      case (HFile b)
      then show ?thesis
        by (simp add: stat_def la)
    next
      case (HDir cs)
      have "map_of cs x = None"
      proof (rule ccontr)
        assume "map_of cs x \<noteq> None"
        then obtain c where "map_of cs x = Some c" by auto
        then have "(x, c) \<in> set cs" by (rule map_of_SomeD)
        then have "(r @ [x], c) \<in> set (child_items r n)"
          using HDir by (force simp: child_items_def)
        moreover have "prefix (?T @ fst (r @ [x], c)) p"
          unfolding p by simp
        ultimately show False using nc by blast
      qed
      then show ?thesis
        by (simp add: stat_def la HDir)
    qed
    then show ?thesis using False u by (simp add: st)
  qed
  show ?case
  proof (cases "\<exists>it \<in> set q. prefix (?T @ fst it) p")
    case True
    then show ?thesis using ih by auto
  next
    case nq: False
    show ?thesis
    proof (cases "\<exists>it \<in> set (child_items r n). prefix (?T @ fst it) p")
      case True
      then have "prefix (?T @ r) p" using child_under by blast
      then show ?thesis using ih True by auto
    next
      case nc: False
      show ?thesis
      proof (cases "prefix (?T @ r) p")
        case True
        then show ?thesis using ih nq nc uncovered [OF True nc] by auto
      next
        case False
        then have "stat ?F1 p = stat F p" by (auto simp: st)
        then show ?thesis using ih nq nc False by auto
      qed
    qed
  qed
qed

lemma matches_top_aux:
  assumes "lookup fs (split_path Path) = Some (HDir es)" and "wf_node (HDir es)"
    and "set cs' \<subseteq> set es"
  shows "list_all2 (matches fs Path) (scan_list True Path cs')
           (map (\<lambda>(name, c). ([] @ [name], c)) cs')"
  using assms(3)
proof (induction cs')
  case Nil
  then show ?case by simp
next
  case (Cons a cs')
  obtain name c where a: "a = (name, c)" by (cases a)
  have mem: "(name, c) \<in> set es" using Cons.prems a by simp
  have wf: "distinct (map fst es)" "wf_list es"
    using assms(2) by simp_all
  have nm: "name \<noteq> []" "CHR ''/'' \<notin> set name" "wf_node c"
    using wf_list_mem [OF wf(2) mem] by simp_all
  have m: "map_of es name = Some c"
    using wf(1) mem by (rule map_of_is_SomeI)
  have "lookup fs (split_path Path @ [name]) = Some c"
    using m lookup_append [of fs "split_path Path" "[name]"] by (simp add: assms(1))
  then have "matches fs Path (scan_node True (Path @ DIR_SEP @ name) name c) ([name], c)"
    using nm by (simp add: matches_def names_ok_def virtualName_scan_node)
  then show ?case
    using Cons a by simp
qed

lemma restore_start:
  assumes "File_IsDirectory fs' Path" and "split_path Path \<noteq> []"
  shows "stat (File_CreateDir Path (File_DeleteDirRecursively Path fs')) p =
     (if p = split_path Path then Some KDir
      else if prefix (split_path Path) p then None else stat fs' p)"
proof -
  let ?T = "split_path Path"
  let ?Fa = "remove_at ?T fs'"
  obtain n where n: "lookup fs' ?T = Some n"
    using assms(1) by (auto simp: File_IsDirectory_def is_dir_def split: option.splits)
  have par: "stat fs' (butlast ?T) = Some KDir"
    using stat_parent [OF n assms(2)] .
  have nb: "\<not> prefix ?T (butlast ?T)"
    using assms(2) by (metis prefix_order.antisym prefixeq_butlast append_butlast_last_id
        self_append_conv snoc_eq_iff_butlast)
  have a: "stat ?Fa q = (if prefix ?T q then None else stat fs' q)" for q
    using stat_remove_at [OF assms(2)] .
  have free: "lookup ?Fa ?T = None"
    using a [of ?T] by (simp add: stat_None)
  have para: "stat ?Fa (butlast ?T) = Some KDir"
    using a [of "butlast ?T"] nb par by simp
  have F0: "File_CreateDir Path (File_DeleteDirRecursively Path fs') = put_at ?T (HDir []) ?Fa"
    using assms(1) free by (simp add: File_DeleteDirRecursively_def File_CreateDir_def)
  show ?thesis
  proof (cases "prefix ?T p \<and> p \<noteq> ?T")
    case True
    then obtain x s where "drop (length ?T) p = x # s"
      using strict_prefix_drop by blast
    then show ?thesis
      using True stat_put_at [OF assms(2) para, of "HDir []" p] unfolding F0
      by (auto simp: stat_Nil_leaf)
  next
    case False
    then show ?thesis
      using stat_put_at [OF assms(2) para, of "HDir []" p] a [of p] unfolding F0
      by (auto simp: stat_def)
  qed
qed

lemma w_restore:
  "DoState w_env w_junk \<lparr>mode = MODE_READ, stream = w_stream\<rparr> w_fs_restore =
     Some (\<lparr>mode = MODE_READ, stream = []\<rparr>, w_fs_restored)"
  by (simp add: DoState_def w_env_def w_stream_def w_fs_restore_def w_fs_restored_def Let_def
      File_DeleteDirRecursively_def File_IsDirectory_def is_dir_def File_CreateDir_def
      IOFile_wb_def split_path_def DIR_SEP_def restore_loop.simps restore_file_loop.simps)

lemma w_tmp_stream_big: "tmp_stream w_env w_junk w_fs_big = w_stream_big"
  by (simp add: tmp_stream_def w_env_def w_fs_big_def w_stream_big_def File_ScanDirectoryTree_def
      split_path_def DIR_SEP_def Let_def save_loop_unfold save_loop_Nil entry_fields_def
      IOFile_rb_def save_file_loop_unfold ReadArray_def)

section \<open>Claims about the dispatchers\<close>

text \<open>
  C3. A request whose opcode is in no table: the scalar dispatcher answers the generic
  invalid-argument code, and the vectored dispatcher, whose default branch leaves the
  initial result untouched, answers success. This evaluates both on such a request.
\<close>

theorem unknown_opcode_results:
  "IOCtl env (req\<lparr>request := IOCTL_UNKNOWN w\<rparr>) fs mem =
     (GetFSReply env FS_EINVAL, fs, Memset (buffer_out req) (CHR 0x00) (buffer_out_size req) mem)
   \<and> IOCtlV env fs (reqv\<lparr>request_v := IOCTL_UNKNOWN w\<rparr>) mem =
       Some (GetFSReply env IPC_SUCCESS, mem)"
  by (simp add: IOCtl_def ExecuteCommand_def IOCtlV_def)

text \<open>
  C8. A SHUTDOWN request through the scalar dispatcher: the branch has no result of its
  own and falls to the result of an unknown opcode, the invalid-argument code. Host tree
  unchanged, output buffer zero-filled.
\<close>

theorem shutdown_returns_einval:
  "IOCtl env (req\<lparr>request := IOCTL_SHUTDOWN\<rparr>) fs mem =
     (GetFSReply env FS_EINVAL, fs, Memset (buffer_out req) (CHR 0x00) (buffer_out_size req) mem)"
  by (simp add: IOCtl_def ExecuteCommand_def)

text \<open>
  C7. GET_STATS: with an output buffer under 28 bytes the reply carries the code \<open>-1017\<close>
  and memory holds the zero-fill of the dispatch only; with 28 bytes or more the reply
  carries success and the image of the record with the seven canned values, field after
  field, is copied to the output buffer.
\<close>

theorem get_stats_reply:
  "IOCtl env (req\<lparr>request := IOCTL_GET_STATS\<rparr>) fs mem =
     (if buffer_out_size req < 28
      then (\<lparr>return_value = ReturnValue (- 1017), send_reply = True,
              reply_delay_ticks = GetTicksPerSecond env div 500\<rparr>, fs,
            Memset (buffer_out req) (CHR 0x00) (buffer_out_size req) mem)
      else (\<lparr>return_value = IPC_SUCCESS, send_reply = True,
              reply_delay_ticks = GetTicksPerSecond env div 500\<rparr>, fs,
            write_bytes (unat (buffer_out req))
              (concat (map (u32_image env)
                 [0x4000, 0x5DEC, 0x1DD4, 0x10, 0x02F0, 0x146B, 0x0394]))
              (Memset (buffer_out req) (CHR 0x00) (buffer_out_size req) mem)))"
  by (simp add: IOCtl_def ExecuteCommand_def GetFSReply_def NANDStat_image_def)

text \<open>
  On a little-endian host, with an output buffer of 28 bytes at \<open>0x300\<close>: the reply
  carries success, and the record read back from the output buffer, field by field, is the
  canned record.
\<close>

theorem get_stats_reply_witness:
  "\<exists>mem'. IOCtl w_env w_get_stats w_fs w_mem =
            (\<lparr>return_value = IPC_SUCCESS, send_reply = True,
               reply_delay_ticks = GetTicksPerSecond w_env div 500\<rparr>, w_fs, mem')
     \<and> read_NANDStat mem' 0x300
         = \<lparr>BlockSize = 0x4000, FreeUserBlocks = 0x5DEC, UsedUserBlocks = 0x1DD4,
            FreeSysBlocks = 0x10, UsedSysBlocks = 0x02F0, Free_INodes = 0x146B,
            Used_Inodes = 0x0394\<rparr>"
proof -
  let ?img = "concat (map (u32_image w_env)
                [0x4000, 0x5DEC, 0x1DD4, 0x10, 0x02F0, 0x146B, 0x0394])"
  let ?m = "Memset 0x300 (CHR 0x00) 28 w_mem"
  have len: "length ?img = 28"
    by (simp add: w_env_def le_bytes32_def be_bytes32_def)
  have r: "read_bytes (write_bytes 0x300 ?img ?m) (0x300 + k) 4 = take 4 (drop k ?img)"
    if "k + 4 \<le> 28" for k
    using that len by (intro read_bytes_write_bytes) simp
  have rd: "read_NANDStat (write_bytes 0x300 ?img ?m) 0x300
       = \<lparr>BlockSize = 0x4000, FreeUserBlocks = 0x5DEC, UsedUserBlocks = 0x1DD4,
          FreeSysBlocks = 0x10, UsedSysBlocks = 0x02F0, Free_INodes = 0x146B,
          Used_Inodes = 0x0394\<rparr>"
    unfolding read_NANDStat_def read_le32_def
    using r [of 0] r [of 4] r [of 8] r [of 12] r [of 16] r [of 20] r [of 24]
    by (simp add: w_env_def le_bytes32_def be_bytes32_def)
  have "IOCtl w_env w_get_stats w_fs w_mem =
          (\<lparr>return_value = IPC_SUCCESS, send_reply = True,
             reply_delay_ticks = GetTicksPerSecond w_env div 500\<rparr>, w_fs,
           write_bytes 0x300 ?img ?m)"
    using get_stats_reply [of w_env w_get_stats w_fs w_mem]
    by (simp add: w_get_stats_def)
  then show ?thesis
    using rd by blast
qed

text \<open>
  C9. CREATE_FILE on a valid guest path whose host path exists: the result is
  \<open>FS_EEXIST\<close>, and neither the host tree nor guest memory changes.
\<close>

theorem create_file_exists:
  assumes "IsValidWiiPath (GetString mem (buffer_in req + 4 + 2) 64)"
    and "File_Exists fs (HLE_IPC_BuildFilename env (GetString mem (buffer_in req + 4 + 2) 64))"
  shows "ExecuteCommand env (req\<lparr>request := IOCTL_CREATE_FILE\<rparr>) fs mem = (FS_EEXIST, fs, mem)"
  using assms by (simp add: ExecuteCommand_def)

theorem create_file_exists_witness:
  "ExecuteCommand w_env w_create_file w_fs w_mem = (FS_EEXIST, w_fs, w_mem)
   \<and> lookup w_fs (split_path ''/wii/tmp/b'') = Some (HFile ''xy'')"
proof -
  have v: "IsValidWiiPath (GetString w_mem (buffer_in w_create_file + 4 + 2) 64)"
    by (simp add: w_create_file_def w_GetString_tmp_b IsValidWiiPath_def compare_eq_def)
  have e: "File_Exists w_fs (HLE_IPC_BuildFilename w_env
             (GetString w_mem (buffer_in w_create_file + 4 + 2) 64))"
    by (simp add: w_create_file_def w_GetString_tmp_b File_Exists_def w_fs_def w_env_def
        split_path_def)
  have l: "lookup w_fs (split_path ''/wii/tmp/b'') = Some (HFile ''xy'')"
    by (simp add: w_fs_def split_path_def)
  show ?thesis
    using create_file_exists [OF v e] l by (simp add: w_create_file_def)
qed



text \<open>
  C4, as amended. GETUSAGE on a valid guest path that does not begin with a legacy prefix:
  the reply carries success; when the host path is a directory the second output receives
  one plus the number of its descendants and the first output the bytes of the files below
  it divided by 16384, each modulo \<open>2 ^ 32\<close>, the range of the 32-bit reply fields;
  otherwise both outputs receive zero.
\<close>

theorem getusage_reply:
  assumes "in_vectors req = in0 # ins" and "io_vectors req = io0 # io1 # ios"
    and "GetString mem (address in0) (size_v in0) = relativepath"
    and "IsValidWiiPath relativepath"
    and "take 15 relativepath \<noteq> ''/title/00010001''"
    and "take 15 relativepath \<noteq> ''/title/00010005''"
  shows "IOCtlV env fs (req\<lparr>request_v := IOCTLV_GETUSAGE\<rparr>) mem =
     Some (\<lparr>return_value = IPC_SUCCESS, send_reply = True,
             reply_delay_ticks = GetTicksPerSecond env div 500\<rparr>,
       (case lookup fs (split_path (HLE_IPC_BuildFilename env relativepath)) of
          Some (HDir es) \<Rightarrow>
            Write_U32 (word_of_nat ((1 + descendants_list es) mod 2 ^ 32)) (address io1)
              (Write_U32 (word_of_nat ((file_bytes_list es div 16384) mod 2 ^ 32)) (address io0) mem)
        | _ \<Rightarrow> Write_U32 0 (address io1) (Write_U32 0 (address io0) mem)))"
  unfolding word_of_nat_mod_32
  using getusage_accounting [OF assms] by (simp add: GetFSReply_def)

theorem getusage_reply_witness:
  "IOCtlV w_env w_fs w_getusage w_mem =
     Some (\<lparr>return_value = IPC_SUCCESS, send_reply = True,
             reply_delay_ticks = GetTicksPerSecond w_env div 500\<rparr>,
           Write_U32 4 0x204 (Write_U32 0 0x200 w_mem))"
proof -
  have v: "IsValidWiiPath ''/tmp''"
    by (simp add: IsValidWiiPath_def compare_eq_def)
  have l: "lookup w_fs (split_path (HLE_IPC_BuildFilename w_env ''/tmp''))
           = Some (HDir [(''b'', HFile ''xy''), (''a'', HDir [(''c'', HFile [])])])"
    by (simp add: w_fs_def w_env_def split_path_def)
  show ?thesis
    using getusage_reply [of w_getusage "\<lparr>address = 0x100, size_v = 5\<rparr>" "[]"
        "\<lparr>address = 0x200, size_v = 4\<rparr>" "\<lparr>address = 0x204, size_v = 4\<rparr>" "[]"
        w_mem "''/tmp''" w_env w_fs] v l
    by (simp add: w_getusage_def w_GetString_tmp)
qed

text \<open>
  The claim as stated, with the exact counts, fails on a directory whose one file has
  \<open>2 ^ 46\<close> bytes: the block count \<open>2 ^ 32\<close> is outside the 32-bit field and the first
  output receives 0.
\<close>

theorem getusage_reply_counterexample:
  "lookup w_fs_huge (split_path (HLE_IPC_BuildFilename w_env ''/tmp''))
     = Some (HDir [(''big'', HFile (replicate 70368744177664 (CHR ''x'')))])
   \<and> file_bytes_list [(''big'', HFile (replicate 70368744177664 (CHR ''x'')))] div 16384
       = 4294967296
   \<and> IOCtlV w_env w_fs_huge w_getusage w_mem =
       Some (\<lparr>return_value = IPC_SUCCESS, send_reply = True,
               reply_delay_ticks = GetTicksPerSecond w_env div 500\<rparr>,
             Write_U32 2 0x204 (Write_U32 0 0x200 w_mem))
   \<and> Read_U32 (Write_U32 2 0x204 (Write_U32 0 0x200 w_mem)) 0x200 = 0"
proof -
  have v: "IsValidWiiPath ''/tmp''"
    by (simp add: IsValidWiiPath_def compare_eq_def)
  have l: "lookup w_fs_huge (split_path (HLE_IPC_BuildFilename w_env ''/tmp''))
     = Some (HDir [(''big'', HFile (replicate 70368744177664 (CHR ''x'')))])"
    by (simp add: w_fs_huge_def w_env_def split_path_def)
  have b: "file_bytes_list [(''big'', HFile (replicate 70368744177664 (CHR ''x'')))] div 16384
       = 4294967296"
    by simp
  have z: "(4294967296 :: 32 word) = 0"
    by simp
  have r: "IOCtlV w_env w_fs_huge w_getusage w_mem =
       Some (\<lparr>return_value = IPC_SUCCESS, send_reply = True,
               reply_delay_ticks = GetTicksPerSecond w_env div 500\<rparr>,
             Write_U32 2 0x204 (Write_U32 0 0x200 w_mem))"
    using getusage_accounting [of w_getusage "\<lparr>address = 0x100, size_v = 5\<rparr>" "[]"
        "\<lparr>address = 0x200, size_v = 4\<rparr>" "\<lparr>address = 0x204, size_v = 4\<rparr>" "[]"
        w_mem "''/tmp''" w_env w_fs_huge] v l
    by (simp add: w_getusage_def w_GetString_tmp GetFSReply_def z)
  have m: "Read_U32 (Write_U32 2 0x204 (Write_U32 0 0x200 w_mem)) 0x200 = 0"
    by (simp add: Read_U32_def Write_U32_def be_bytes32_def read_bytes_def)
  show ?thesis
    using l b r m by simp
qed

text \<open>
  C2, as amended. GETUSAGE on the guest path \<open>/title/00010001\<close> or \<open>/title/00010005\<close>
  whose host path is a directory: the first output receives 23 and the second 42, whatever
  the directory holds.
\<close>

theorem getusage_legacy:
  assumes "in_vectors req = in0 # ins" and "io_vectors req = io0 # io1 # ios"
    and "GetString mem (address in0) (size_v in0) = relativepath"
    and "relativepath = ''/title/00010001'' \<or> relativepath = ''/title/00010005''"
    and "File_IsDirectory fs (HLE_IPC_BuildFilename env relativepath)"
  shows "IOCtlV env fs (req\<lparr>request_v := IOCTLV_GETUSAGE\<rparr>) mem =
     Some (GetFSReply env IPC_SUCCESS,
           Write_U32 42 (address io1) (Write_U32 23 (address io0) mem))"
  using assms by (auto simp: IOCtlV_def IsValidWiiPath_def compare_eq_def)

theorem getusage_legacy_witness:
  "IOCtlV w_env w_fs w_getusage_legacy5 w_mem =
     Some (GetFSReply w_env IPC_SUCCESS, Write_U32 42 0x204 (Write_U32 23 0x200 w_mem))
   \<and> lookup w_fs (split_path ''/wii/title/00010005'') = Some (HDir [(''x'', HFile ''abc'')])"
proof -
  have d: "File_IsDirectory w_fs (HLE_IPC_BuildFilename w_env ''/title/00010005'')"
    by (simp add: File_IsDirectory_def is_dir_def w_fs_def w_env_def split_path_def)
  have l: "lookup w_fs (split_path ''/wii/title/00010005'') = Some (HDir [(''x'', HFile ''abc'')])"
    by (simp add: w_fs_def split_path_def)
  show ?thesis
    using getusage_legacy [of w_getusage_legacy5 "\<lparr>address = 0x500, size_v = 16\<rparr>" "[]"
        "\<lparr>address = 0x200, size_v = 4\<rparr>" "\<lparr>address = 0x204, size_v = 4\<rparr>" "[]"
        w_mem "''/title/00010005''" w_fs w_env] d l
    by (simp add: w_getusage_legacy5_def w_GetString_legacy5)
qed

text \<open>
  The claim as stated fails where the legacy directory does not exist on the host: the
  path \<open>/title/00010001\<close> is valid and begins with the prefix, and both outputs receive 0.
\<close>

theorem getusage_legacy_counterexample:
  "GetString w_mem 0x400 16 = ''/title/00010001''
   \<and> IsValidWiiPath ''/title/00010001''
   \<and> \<not> File_Exists w_fs (HLE_IPC_BuildFilename w_env ''/title/00010001'')
   \<and> IOCtlV w_env w_fs w_getusage_legacy1 w_mem =
       Some (GetFSReply w_env IPC_SUCCESS, Write_U32 0 0x204 (Write_U32 0 0x200 w_mem))
   \<and> Read_U32 (Write_U32 0 0x204 (Write_U32 0 0x200 w_mem)) 0x200 = 0
   \<and> Read_U32 (Write_U32 0 0x204 (Write_U32 0 0x200 w_mem)) 0x204 = 0"
proof -
  have e: "\<not> File_Exists w_fs (HLE_IPC_BuildFilename w_env ''/title/00010001'')"
    by (simp add: File_Exists_def w_fs_def w_env_def split_path_def)
  have d: "\<not> File_IsDirectory w_fs (HLE_IPC_BuildFilename w_env ''/title/00010001'')"
    by (simp add: File_IsDirectory_def is_dir_def w_fs_def w_env_def split_path_def)
  have v: "IsValidWiiPath ''/title/00010001''"
    by (simp add: IsValidWiiPath_def compare_eq_def)
  have r: "IOCtlV w_env w_fs w_getusage_legacy1 w_mem =
       Some (GetFSReply w_env IPC_SUCCESS, Write_U32 0 0x204 (Write_U32 0 0x200 w_mem))"
    using d v by (simp add: IOCtlV_def w_getusage_legacy1_def w_GetString_legacy1)
  have b: "Read_U32 (Write_U32 0 0x204 (Write_U32 0 0x200 w_mem)) 0x200 = 0"
    by (simp add: Read_U32_def Write_U32_def be_bytes32_def read_bytes_def)
  have i: "Read_U32 (Write_U32 0 0x204 (Write_U32 0 0x200 w_mem)) 0x204 = 0"
    by (simp add: Read_U32_def Write_U32_def be_bytes32_def read_bytes_def)
  show ?thesis
    using e v r b i w_GetString_legacy1 by simp
qed

text \<open>
  C5. READ_DIR in listing mode takes its cap from the word at the address of the first
  input vector, which is the address of the path, and never reads the second input
  vector. On the directory \<open>/tmp\<close> with the two children \<open>a\<close> and \<open>b\<close>, and with the word 1
  in the second input vector, the listing writes both names, sorted and NUL-terminated,
  into the zero-filled names buffer and the count 2 to the second output.
\<close>

theorem read_dir_cap_ignored:
  "GetString w_mem_cap 0x100 5 = ''/tmp''
   \<and> Read_U32 w_mem_cap 0x700 = 1
   \<and> lookup w_fs (split_path (HLE_IPC_BuildFilename w_env ''/tmp''))
       = Some (HDir [(''b'', HFile ''xy''), (''a'', HDir [(''c'', HFile [])])])
   \<and> IOCtlV w_env w_fs w_read_dir w_mem_cap =
       Some (\<lparr>return_value = IPC_SUCCESS, send_reply = True,
               reply_delay_ticks = GetTicksPerSecond w_env div 500\<rparr>,
             Write_U32 2 0x204
               (write_bytes 0x600 [CHR ''a'', CHR 0x00, CHR ''b'', CHR 0x00]
                  (Memset 0x600 (CHR 0x00) 16 w_mem_cap)))"
proof -
  have v: "IsValidWiiPath ''/tmp''"
    by (simp add: IsValidWiiPath_def compare_eq_def)
  have l: "lookup w_fs (split_path (HLE_IPC_BuildFilename w_env ''/tmp''))
           = Some (HDir [(''b'', HFile ''xy''), (''a'', HDir [(''c'', HFile [])])])"
    by (simp add: w_fs_def w_env_def split_path_def)
  have n: "[''a'', ''b''] = sort (map (\<lambda>(n, c). UnescapeFileName w_env n)
             [(''b'', HFile ''xy''), (''a'', HDir [(''c'', HFile [])])])"
    by (simp add: w_env_def)
  have z: "\<forall>n \<in> set [''a'', ''b'']. CHR 0x00 \<notin> set n"
    by simp
  have k: "2 = min (unat (Read_U32 w_mem_cap (address \<lparr>address = 0x100, size_v = 5\<rparr>)))
                   (length [(''b'', HFile ''xy''), (''a'', HDir [(''c'', HFile [])])])"
    by (simp add: w_Read_U32_cap_path)
  have r: "IOCtlV w_env w_fs w_read_dir w_mem_cap =
       Some (\<lparr>return_value = IPC_SUCCESS, send_reply = True,
               reply_delay_ticks = GetTicksPerSecond w_env div 500\<rparr>,
             Write_U32 2 0x204
               (write_bytes 0x600 [CHR ''a'', CHR 0x00, CHR ''b'', CHR 0x00]
                  (Memset 0x600 (CHR 0x00) 16 w_mem_cap)))"
    using read_dir_listing [where req = w_read_dir and ?in0.0 = "\<lparr>address = 0x100, size_v = 5\<rparr>"
        and ins = "[\<lparr>address = 0x700, size_v = 4\<rparr>]"
        and ?io0.0 = "\<lparr>address = 0x600, size_v = 16\<rparr>"
        and ?io1.0 = "\<lparr>address = 0x204, size_v = 4\<rparr>" and ios = "[]"
        and mem = w_mem_cap and relative_path = "''/tmp''" and env = w_env and fs = w_fs
        and names = "[''a'', ''b'']" and k = 2, OF _ _ _ v l n z k]
    by (simp add: w_read_dir_def w_GetString_cap GetFSReply_def)
  show ?thesis
    using w_GetString_cap w_Read_U32_cap l r by simp
qed

section \<open>Claims about the snapshot\<close>

text \<open>
  C6. A save (\<open>DoState\<close> in write mode) appends \<open>tmp_stream\<close> to the stream, for any
  host tree. Read as records, that stream has the zero type tag on its last record and on
  no other. A restore of that stream followed by any fields \<open>rest\<close>, into any host tree,
  succeeds and leaves exactly \<open>rest\<close> unread.
\<close>

theorem snapshot_sentinel:
  assumes "mode p = MODE_WRITE"
  shows "DoState env junk p fs = Some (p\<lparr>stream := stream p @ tmp_stream env junk fs\<rparr>, fs)
    \<and> (\<exists>tags. stream_tags (tmp_stream env junk fs) = Some (tags @ [CHR 0x00])
              \<and> CHR 0x00 \<notin> set tags)
    \<and> map_option fst
         (DoState env junk' \<lparr>mode = MODE_READ, stream = tmp_stream env junk fs @ rest\<rparr> fs')
       = Some \<lparr>mode = MODE_READ, stream = rest\<rparr>"
proof (intro conjI)
  show "DoState env junk p fs = Some (p\<lparr>stream := stream p @ tmp_stream env junk fs\<rparr>, fs)"
    using assms by (simp add: DoState_write)
next
  let ?Path = "GetUserPath_SESSION_WIIROOT env @ ''/tmp''"
  let ?todo = "children (File_ScanDirectoryTree fs ?Path True)"
  from stream_tags_save_loop [of fs ?Path junk ?todo] obtain tags where tags: "CHR 0x00 \<notin> set tags"
    "\<And>s. stream_tags (save_loop fs ?Path junk ?todo [] @ s) = map_option (append tags) (stream_tags s)"
    by (elim exE conjE) (rule that, assumption, erule spec)
  have z: "stream_tags [FChar (CHR 0x00)] = Some [CHR 0x00]"
    by (subst stream_tags.simps, subst stream_tags.simps) simp
  have "stream_tags (tmp_stream env junk fs) = Some (tags @ [CHR 0x00])"
    by (simp add: tmp_stream_def Let_def tags(2) z)
  then show "\<exists>tags. stream_tags (tmp_stream env junk fs) = Some (tags @ [CHR 0x00])
              \<and> CHR 0x00 \<notin> set tags"
    using tags(1) by blast
next
  let ?Path = "GetUserPath_SESSION_WIIROOT env @ ''/tmp''"
  let ?todo = "children (File_ScanDirectoryTree fs ?Path True)"
  obtain F' where "restore_loop ?Path (save_loop fs ?Path junk ?todo [] @ FChar (CHR 0x00) # rest)
      (File_CreateDir ?Path (File_DeleteDirRecursively ?Path fs')) = Some (rest, F')"
    using restore_loop_save_loop by blast
  then show "map_option fst
         (DoState env junk' \<lparr>mode = MODE_READ, stream = tmp_stream env junk fs @ rest\<rparr> fs')
       = Some \<lparr>mode = MODE_READ, stream = rest\<rparr>"
    by (simp add: DoState_def tmp_stream_def Let_def)
qed

theorem snapshot_sentinel_witness:
  "DoState w_env w_junk \<lparr>mode = MODE_WRITE, stream = [FString ''IOS'']\<rparr> w_fs =
     Some (\<lparr>mode = MODE_WRITE, stream = FString ''IOS'' # w_stream\<rparr>, w_fs)
   \<and> stream_tags w_stream = Some [CHR ''f'', CHR ''d'', CHR ''f'', CHR 0x00]
   \<and> map_option fst
        (DoState w_env w_junk \<lparr>mode = MODE_READ, stream = w_stream @ [FString ''IOS::HLE'']\<rparr>
           w_fs_restore)
      = Some \<lparr>mode = MODE_READ, stream = [FString ''IOS::HLE'']\<rparr>"
  using snapshot_sentinel [of "\<lparr>mode = MODE_WRITE, stream = [FString ''IOS'']\<rparr>" w_env w_junk w_fs
      w_junk "[FString ''IOS::HLE'']" w_fs_restore] w_stream_tags
  by (simp add: w_tmp_stream)

text \<open>
  C1, as amended. Let the scratch directory of a host tree be well formed with every file
  shorter than \<open>2 ^ 32\<close> bytes. A save appends \<open>tmp_stream\<close>; a restore of that stream
  into any host tree in which the scratch directory exists succeeds, leaves the fields
  behind the stream unread, and gives a tree in which every path below the scratch
  directory names what it names in the saved tree: the same directories, the same files
  with the same bytes, and nothing else.
\<close>

theorem snapshot_round_trip:
  assumes "Path = GetUserPath_SESSION_WIIROOT env @ ''/tmp''"
    and "lookup fs (split_path Path) = Some (HDir es)"
    and "wf_node (HDir es)" and "files_small (HDir es)"
    and "mode p = MODE_WRITE"
    and "File_IsDirectory fs' Path"
  shows "DoState env junk p fs = Some (p\<lparr>stream := stream p @ tmp_stream env junk fs\<rparr>, fs)
    \<and> (\<exists>fs''. DoState env junk' \<lparr>mode = MODE_READ, stream = tmp_stream env junk fs @ rest\<rparr> fs'
                = Some (\<lparr>mode = MODE_READ, stream = rest\<rparr>, fs'')
            \<and> (\<forall>rel. stat fs'' (split_path Path @ rel) = stat fs (split_path Path @ rel)))"
proof
  show "DoState env junk p fs = Some (p\<lparr>stream := stream p @ tmp_stream env junk fs\<rparr>, fs)"
    using assms(5) by (simp add: DoState_write)
next
  let ?T = "split_path Path"
  let ?items = "child_items [] (HDir es)"
  let ?F0 = "File_CreateDir Path (File_DeleteDirRecursively Path fs')"
  let ?F' = "fold (apply_item Path) (bfs ?items) ?F0"
  have T: "?T \<noteq> []"
    unfolding assms(1) by (simp add: split_path_tmp)
  note s0 = restore_start [OF assms(6) T]
  have todo: "children (File_ScanDirectoryTree fs Path True) = scan_list True Path es"
    using assms(2) by (simp add: File_ScanDirectoryTree_def Let_def)
  have m: "list_all2 (matches fs Path) (scan_list True Path es) ?items"
    using matches_top_aux [OF assms(2,3) subset_refl] by (simp add: child_items_def)
  have sv: "tmp_stream env junk fs =
      concat (map (rec_fields junk) (bfs ?items)) @ [FChar (CHR 0x00)]"
    using save_loop_records [OF m] todo by (simp add: tmp_stream_def Let_def assms(1))
  have rs: "restore_loop Path (tmp_stream env junk fs @ rest) ?F0 = Some (rest, ?F')"
    unfolding sv using restore_loop_records [of Path junk "bfs ?items" rest ?F0] by simp
  have ds: "DoState env junk' \<lparr>mode = MODE_READ, stream = tmp_stream env junk fs @ rest\<rparr> fs'
        = Some (\<lparr>mode = MODE_READ, stream = rest\<rparr>, ?F')"
    using rs by (simp add: DoState_def Let_def assms(1) [symmetric])
  have ok: "item_ok fs ?T ?F0 it" if itm: "it \<in> set ?items" for it
  proof -
    obtain name c where it: "it = ([] @ [name], c)" and mem: "(name, c) \<in> set es"
      using itm by (auto simp: child_items_def)
    have a: "stat ?F0 (?T @ []) = Some KDir"
      by (simp add: s0)
    have b: "stat ?F0 (?T @ [] @ [name]) = None"
      using s0 [of "?T @ [name]"] by simp
    have l: "lookup fs (?T @ []) = Some (HDir es)"
      using assms(2) by simp
    have nk: "names_ok []" by (simp add: names_ok_def)
    show ?thesis
      unfolding it using item_ok_child [OF l assms(3,4) nk mem a b] .
  qed
  have "antichain ([] # [])" by (simp add: antichain_def)
  moreover have "distinct (map fst es)" using assms(3) by simp
  ultimately have ac: "antichain (map fst ?items)"
    using antichain_step [of "[]" "[]" "map fst es"] by (simp add: map_fst_child_items)
  have iv: "inv fs ?T ?F0 ?items"
    unfolding inv_def using ok ac by (simp add: list_all_iff)
  note res = bfs_restore [OF iv]
  have eq: "stat ?F' (?T @ rel) = stat fs (?T @ rel)" for rel
  proof (cases "\<exists>it \<in> set ?items. prefix (?T @ fst it) (?T @ rel)")
    case True
    then show ?thesis using res [of "?T @ rel"] by simp
  next
    case False
    then have r: "stat ?F' (?T @ rel) = stat ?F0 (?T @ rel)"
      using res [of "?T @ rel"] by simp
    show ?thesis
    proof (cases rel)
      case Nil
      have "stat ?F0 ?T = Some KDir" by (simp add: s0)
      moreover have "stat fs ?T = Some KDir" using assms(2) by (simp add: stat_def)
      ultimately show ?thesis using r Nil by simp
    next
      case (Cons x s)
      have "map_of es x = None"
      proof (rule ccontr)
        assume "map_of es x \<noteq> None"
        then obtain c where "map_of es x = Some c" by auto
        then have "(x, c) \<in> set es" by (rule map_of_SomeD)
        then have "([x], c) \<in> set ?items"
          by (force simp: child_items_def)
        moreover have "prefix (?T @ fst ([x], c)) (?T @ rel)"
          unfolding Cons by simp
        ultimately show False using False by blast
      qed
      then have "stat fs (?T @ rel) = None"
        using lookup_append [of fs ?T rel] assms(2) Cons by (simp add: stat_def)
      moreover have "stat ?F0 (?T @ rel) = None"
        using s0 [of "?T @ rel"] Cons by simp
      ultimately show ?thesis using r by simp
    qed
  qed
  show "\<exists>fs''. DoState env junk' \<lparr>mode = MODE_READ, stream = tmp_stream env junk fs @ rest\<rparr> fs'
                = Some (\<lparr>mode = MODE_READ, stream = rest\<rparr>, fs'')
            \<and> (\<forall>rel. stat fs'' (split_path Path @ rel) = stat fs (split_path Path @ rel))"
    using ds eq by blast
qed

theorem snapshot_round_trip_witness:
  "DoState w_env w_junk \<lparr>mode = MODE_WRITE, stream = []\<rparr> w_fs =
     Some (\<lparr>mode = MODE_WRITE, stream = w_stream\<rparr>, w_fs)
   \<and> DoState w_env w_junk \<lparr>mode = MODE_READ, stream = w_stream\<rparr> w_fs_restore =
       Some (\<lparr>mode = MODE_READ, stream = []\<rparr>, w_fs_restored)
   \<and> (\<forall>rel. stat w_fs_restored ([''wii'', ''tmp''] @ rel) = stat w_fs ([''wii'', ''tmp''] @ rel))"
proof -
  let ?es = "[(''b'', HFile ''xy''), (''a'', HDir [(''c'', HFile [])])]"
  have P: "''/wii/tmp'' = GetUserPath_SESSION_WIIROOT w_env @ ''/tmp''"
    by (simp add: w_env_def)
  have sp: "split_path ''/wii/tmp'' = [''wii'', ''tmp'']"
    by (simp add: split_path_def)
  have l: "lookup w_fs (split_path ''/wii/tmp'') = Some (HDir ?es)"
    by (simp add: w_fs_def sp)
  have wf: "wf_node (HDir ?es)" by simp
  have sm: "files_small (HDir ?es)" by simp
  have md: "mode \<lparr>mode = MODE_WRITE, stream = []\<rparr> = MODE_WRITE" by simp
  have d: "File_IsDirectory w_fs_restore ''/wii/tmp''"
    by (simp add: File_IsDirectory_def is_dir_def w_fs_restore_def sp)
  show ?thesis
    using snapshot_round_trip [OF P l wf sm md d, of w_junk w_junk "[]"] w_restore
    by (simp add: w_tmp_stream sp)
qed

text \<open>
  The claim as stated, for any file size, fails on a file of \<open>2 ^ 32\<close> bytes: its length
  is passed as the 32-bit value 0 with no bytes, and the restore creates an empty file.
\<close>

theorem snapshot_round_trip_counterexample:
  "DoState w_env w_junk \<lparr>mode = MODE_WRITE, stream = []\<rparr> w_fs_big =
     Some (\<lparr>mode = MODE_WRITE, stream = w_stream_big\<rparr>, w_fs_big)
   \<and> DoState w_env w_junk \<lparr>mode = MODE_READ, stream = w_stream_big\<rparr> w_fs_restore =
       Some (\<lparr>mode = MODE_READ, stream = []\<rparr>,
             HDir [(''wii'', HDir [(''tmp'', HDir [(''big'', HFile [])])])])
   \<and> stat w_fs_big [''wii'', ''tmp'', ''big''] = Some (KFile (replicate 4294967296 (CHR ''x'')))
   \<and> stat (HDir [(''wii'', HDir [(''tmp'', HDir [(''big'', HFile [])])])])
        [''wii'', ''tmp'', ''big''] = Some (KFile [])
   \<and> replicate 4294967296 (CHR ''x'') \<noteq> []"
proof -
  have s: "DoState w_env w_junk \<lparr>mode = MODE_WRITE, stream = []\<rparr> w_fs_big =
     Some (\<lparr>mode = MODE_WRITE, stream = w_stream_big\<rparr>, w_fs_big)"
    using DoState_write [of "\<lparr>mode = MODE_WRITE, stream = []\<rparr>" w_env w_junk w_fs_big]
    by (simp add: w_tmp_stream_big)
  have r: "DoState w_env w_junk \<lparr>mode = MODE_READ, stream = w_stream_big\<rparr> w_fs_restore =
       Some (\<lparr>mode = MODE_READ, stream = []\<rparr>,
             HDir [(''wii'', HDir [(''tmp'', HDir [(''big'', HFile [])])])])"
    by (simp add: DoState_def w_env_def w_stream_big_def w_fs_restore_def Let_def
      File_DeleteDirRecursively_def File_IsDirectory_def is_dir_def File_CreateDir_def
      IOFile_wb_def split_path_def DIR_SEP_def restore_loop.simps restore_file_loop.simps)
  have a: "stat w_fs_big [''wii'', ''tmp'', ''big''] = Some (KFile (replicate 4294967296 (CHR ''x'')))"
    by (simp add: stat_def w_fs_big_def)
  have b: "stat (HDir [(''wii'', HDir [(''tmp'', HDir [(''big'', HFile [])])])])
        [''wii'', ''tmp'', ''big''] = Some (KFile [])"
    by (simp add: stat_def)
  have c: "replicate 4294967296 (CHR ''x'') \<noteq> []"
    by simp
  show ?thesis using s r a b c by simp
qed

end
